theory Spec2Isabelle
  imports Main
begin

section \<open>Python values and exceptions\<close>

text \<open>
  Exceptions are values. Every \<open>raise\<close>, failing subscript and failing \<open>assert\<close> of the
  source is an \<open>Inl\<close> branch of the function that models it.
\<close>

datatype py_error =
    ValueError string
  | KeyError string
  | IndexError
  | TypeError
  | AssertionError
  | UnicodeDecodeError
  | PyException string
  | NotModelled

text \<open>
  The values an event (\<open>dict[str, Any]\<close>) is built from. A dict is an association list in
  insertion order with string keys; \<open>==\<close> on the scalars is structural equality.
\<close>

datatype pyval =
    PInt int
  | PStr string
  | PList "pyval list"
  | PDict "(string \<times> pyval) list"

type_synonym pydict = "(string \<times> pyval) list"

definition ebind :: "'e + 'a \<Rightarrow> ('a \<Rightarrow> 'e + 'b) \<Rightarrow> 'e + 'b" where
  "ebind m f = (case m of Inl e \<Rightarrow> Inl e | Inr x \<Rightarrow> f x)"

text \<open>\<open>d[k]\<close> on a dict: KeyError when the key is absent.\<close>

definition dict_get :: "pydict \<Rightarrow> string \<Rightarrow> py_error + pyval" where
  "dict_get d k = (case map_of d k of None \<Rightarrow> Inl (KeyError k) | Some v \<Rightarrow> Inr v)"

text \<open>\<open>d[k] = v\<close>: an existing key keeps its position, a new key goes last.\<close>

fun dict_set :: "pydict \<Rightarrow> string \<Rightarrow> pyval \<Rightarrow> pydict" where
  "dict_set [] k v = [(k, v)]"
| "dict_set (p # ps) k v = (if fst p = k then (k, v) # ps else p # dict_set ps k v)"

text \<open>\<open>v[k]\<close> with a string key on any value: only a dict accepts it.\<close>

definition getitem :: "pyval \<Rightarrow> string \<Rightarrow> py_error + pyval" where
  "getitem v k = (case v of PDict d \<Rightarrow> dict_get d k | _ \<Rightarrow> Inl TypeError)"

text \<open>\<open>v[0]\<close>: first element of a list, first character of a string.\<close>

definition getitem0 :: "pyval \<Rightarrow> py_error + pyval" where
  "getitem0 v =
     (case v of
        PList xs \<Rightarrow> (case xs of [] \<Rightarrow> Inl IndexError | x # _ \<Rightarrow> Inr x)
      | PStr s \<Rightarrow> (case s of [] \<Rightarrow> Inl IndexError | c # _ \<Rightarrow> Inr (PStr [c]))
      | PDict d \<Rightarrow> Inl (KeyError ''0'')
      | PInt _ \<Rightarrow> Inl TypeError)"

definition py_len :: "pyval \<Rightarrow> py_error + int" where
  "py_len v =
     (case v of
        PList xs \<Rightarrow> Inr (int (length xs))
      | PStr s \<Rightarrow> Inr (int (length s))
      | PDict d \<Rightarrow> Inr (int (length d))
      | PInt _ \<Rightarrow> Inl TypeError)"

text \<open>\<open>sub in s\<close> on strings: \<open>sub\<close> occurs as a contiguous piece of \<open>s\<close>.\<close>

fun str_contains :: "string \<Rightarrow> string \<Rightarrow> bool" where
  "str_contains [] sub = (sub = [])"
| "str_contains (c # cs) sub = (take (length sub) (c # cs) = sub \<or> str_contains cs sub)"

text \<open>\<open>k in v\<close> for a string \<open>k\<close>: key of a dict, element of a list, piece of a string.\<close>

definition py_in :: "string \<Rightarrow> pyval \<Rightarrow> py_error + bool" where
  "py_in k v =
     (case v of
        PDict d \<Rightarrow> Inr (map_of d k \<noteq> None)
      | PList xs \<Rightarrow> Inr (PStr k \<in> set xs)
      | PStr s \<Rightarrow> Inr (str_contains s k)
      | PInt _ \<Rightarrow> Inl TypeError)"

section \<open>handlers/aws/utils.py\<close>

subsection \<open>String helpers of the standard library\<close>

definition startswith :: "'a list \<Rightarrow> 'a list \<Rightarrow> bool" where
  "startswith s p = (take (length p) s = p)"

definition endswith :: "'a list \<Rightarrow> 'a list \<Rightarrow> bool" where
  "endswith s p = (length p \<le> length s \<and> drop (length s - length p) s = p)"

text \<open>
  \<open>s.lstrip(chars)\<close>, \<open>s.rstrip(chars)\<close>, \<open>s.strip(chars)\<close>: \<open>chars\<close> is a set of characters,
  removed from the ends for as long as they occur there.
\<close>

definition py_lstrip :: "'a list \<Rightarrow> 'a list \<Rightarrow> 'a list" where
  "py_lstrip chars s = dropWhile (\<lambda>c. c \<in> set chars) s"

definition py_rstrip :: "'a list \<Rightarrow> 'a list \<Rightarrow> 'a list" where
  "py_rstrip chars s = rev (dropWhile (\<lambda>c. c \<in> set chars) (rev s))"

definition py_strip :: "'a list \<Rightarrow> 'a list \<Rightarrow> 'a list" where
  "py_strip chars s = py_rstrip chars (py_lstrip chars s)"

text \<open>\<open>s.split(sep, 1)\<close> for a one-character separator: at most one cut, at the first \<open>sep\<close>.\<close>

definition py_split1 :: "char \<Rightarrow> string \<Rightarrow> string list" where
  "py_split1 sep s =
     (if sep \<in> set s
      then [takeWhile (\<lambda>c. c \<noteq> sep) s, tl (dropWhile (\<lambda>c. c \<noteq> sep) s)]
      else [s])"

subsection \<open>\<open>_from_s3_uri_to_bucket_name_and_object_key\<close>\<close>

definition from_s3_uri_to_bucket_name_and_object_key :: "string \<Rightarrow> py_error + string \<times> string" where
  "from_s3_uri_to_bucket_name_and_object_key s3_uri =
     (if \<not> startswith s3_uri ''s3://''
      then Inl (ValueError (''Invalid s3 uri provided: '' @ s3_uri))
      else
        let s3_uri' = py_strip ''s3://'' s3_uri;
            bucket_name_and_object_key = py_split1 CHR ''/'' s3_uri'
        in if length bucket_name_and_object_key \<noteq> 2
           then Inl (ValueError (''Invalid s3 uri provided: '' @ s3_uri'))
           else Inr (bucket_name_and_object_key ! 0, bucket_name_and_object_key ! 1))"

subsection \<open>\<open>_get_trigger_type\<close>\<close>

definition available_triggers :: "(string \<times> string) list" where
  "available_triggers = [(''aws:sqs'', ''sqs'')]"

text \<open>
  \<open>event_source not in _available_triggers\<close>: the key of a dict lookup must be hashable,
  which a list and a dict are not.
\<close>

definition in_available_triggers :: "pyval \<Rightarrow> py_error + bool" where
  "in_available_triggers v =
     (case v of
        PStr s \<Rightarrow> Inr (map_of available_triggers s \<noteq> None)
      | PInt _ \<Rightarrow> Inr False
      | _ \<Rightarrow> Inl TypeError)"

text \<open>
  The first guard is \<open>"Records" not in event and len(event["Records"]) < 1\<close>: the right operand
  is evaluated exactly when the key is absent, and subscripts the absent key.
\<close>

definition records_guard :: "pydict \<Rightarrow> py_error + bool" where
  "records_guard event =
     (if map_of event ''Records'' = None
      then ebind (dict_get event ''Records'') (\<lambda>rs. ebind (py_len rs) (\<lambda>n. Inr (n < 1)))
      else Inr False)"

definition get_trigger_type :: "pydict \<Rightarrow> py_error + string" where
  "get_trigger_type event =
     ebind (records_guard event) (\<lambda>g.
       if g then Inl (PyException ''Not supported trigger'')
       else
         ebind (dict_get event ''Records'') (\<lambda>rs.
         ebind (getitem0 rs) (\<lambda>r0.
         ebind (py_in ''eventSource'' r0) (\<lambda>has_source.
           if \<not> has_source then Inl (PyException ''Not supported trigger'')
           else
             ebind (getitem r0 ''eventSource'') (\<lambda>event_source.
             ebind (in_available_triggers event_source) (\<lambda>known.
               if \<not> known then Inl (PyException ''Not supported trigger'')
               else
                 let trigger_type =
                       (case event_source of PStr s \<Rightarrow> the (map_of available_triggers s) | _ \<Rightarrow> [])
                 in if trigger_type \<noteq> ''sqs'' then Inr trigger_type
                    else
                      ebind (py_in ''messageAttributes'' r0) (\<lambda>has_attrs.
                        if \<not> has_attrs then Inr trigger_type
                        else
                          ebind (getitem r0 ''messageAttributes'') (\<lambda>attrs.
                          ebind (py_in ''originalEventSource'' attrs) (\<lambda>is_replay.
                            if \<not> is_replay then Inr trigger_type
                            else Inr ''self_sqs'')))))))))"

section \<open>shippers/es.py\<close>

subsection \<open>State of the shipper and of the world around it\<close>

text \<open>
  \<open>self._bulk_kwargs\<close> as the constructor fills it; \<open>chunk_size\<close> is present only when
  \<open>batch_max_actions > 0\<close>.
\<close>

record bulk_kwargs =
  max_retries :: int
  stats_only :: bool
  raise_on_error :: bool
  raise_on_exception :: bool
  max_chunk_bytes :: int
  chunk_size :: "int option"

text \<open>
  The attributes of \<open>ElasticsearchShipper\<close>. \<open>es_index\<close> is \<open>None\<close> while the attribute
  \<open>_es_index\<close> does not exist (only \<open>discover_dataset\<close> creates it); \<open>replay_handler\<close> tells
  whether a callback is installed.
\<close>

record shipper =
  bulk_actions :: "pydict list"
  bulk_batch_size :: int
  bulk_kwargs :: bulk_kwargs
  replay_args :: pydict
  replay_handler :: bool
  dataset :: string
  namespace :: string
  tags :: "string list"
  es_index :: "string option"

text \<open>
  What the shipper does to the outside: the bulk requests it has issued, in order, and the calls
  it has made to the replay handler.
\<close>

record world =
  bulk_requests :: "(pydict list \<times> bulk_kwargs) list"
  replay_calls :: "(string \<times> pydict \<times> pydict) list"

text \<open>
  The cluster behind \<open>elasticsearch.helpers.bulk\<close> is a parameter: from the requests seen so far
  and the actions of this request it gives \<open>(success, errors)\<close>. With \<open>raise_on_error\<close> and
  \<open>raise_on_exception\<close> off the helper reports failures in \<open>errors\<close> and does not raise.
\<close>

type_synonym es_cluster = "(pydict list \<times> bulk_kwargs) list \<Rightarrow> pydict list \<Rightarrow> int \<times> pyval list"

definition es_bulk :: "es_cluster \<Rightarrow> world \<Rightarrow> pydict list \<Rightarrow> bulk_kwargs \<Rightarrow> (int \<times> pyval list) \<times> world" where
  "es_bulk es w actions kwargs =
     (es (bulk_requests w) actions, w\<lparr>bulk_requests := bulk_requests w @ [(actions, kwargs)]\<rparr>)"

subsection \<open>\<open>__init__\<close>\<close>

definition init_shipper ::
  "string \<Rightarrow> string \<Rightarrow> string \<Rightarrow> string \<Rightarrow> string \<Rightarrow> string \<Rightarrow> string \<Rightarrow> string list \<Rightarrow> int \<Rightarrow> int
     \<Rightarrow> py_error + shipper" where
  "init_shipper elasticsearch_url username password cloud_id api_key dataset' namespace' tags'
       batch_max_actions batch_max_bytes =
     (let kwargs = \<lparr>max_retries = 10, stats_only = False, raise_on_error = False,
                     raise_on_exception = False, max_chunk_bytes = batch_max_bytes,
                     chunk_size = (if batch_max_actions > 0 then Some batch_max_actions else None)\<rparr>
      in if elasticsearch_url = [] \<and> cloud_id = []
         then Inl (ValueError ''You must provide one between elasticsearch_url or cloud_id'')
         else if username = [] \<and> api_key = []
         then Inl (ValueError ''You must provide one between username and password or api_key'')
         else Inr \<lparr>bulk_actions = [], bulk_batch_size = batch_max_actions, bulk_kwargs = kwargs,
                    replay_args = [], replay_handler = False, dataset = dataset',
                    namespace = namespace', tags = tags', es_index = None\<rparr>)"

definition set_replay_handler :: "shipper \<Rightarrow> shipper" where
  "set_replay_handler self = self\<lparr>replay_handler := True\<rparr>"

subsection \<open>\<open>_s3_object_id\<close>\<close>

text \<open>Decimal digits of a natural number, most significant first (\<open>str(n)\<close>).\<close>

definition digit_char :: "nat \<Rightarrow> char" where
  "digit_char d = ''0123456789'' ! d"

fun dec :: "nat \<Rightarrow> string" where
  "dec n = (if n < 10 then [digit_char n] else dec (n div 10) @ [digit_char (n mod 10)])"

declare dec.simps [simp del]

text \<open>
  The format spec \<open>012d\<close>: width 12, filled with zeros after the sign; a longer number is not cut.
\<close>

definition zfill :: "nat \<Rightarrow> string \<Rightarrow> string" where
  "zfill w s = replicate (w - length s) CHR ''0'' @ s"

definition format_012d :: "int \<Rightarrow> string" where
  "format_012d n =
     (if n < 0 then CHR ''-'' # zfill 11 (dec (nat (- n))) else zfill 12 (dec (nat n)))"

text \<open>
  \<open>f"{v}"\<close> is \<open>str(v)\<close>: the string itself, the decimal digits of an integer. The \<open>repr\<close>
  of lists and dicts is not modelled (\<open>NotModelled\<close> is not an exception of the source).
\<close>

definition py_str :: "pyval \<Rightarrow> py_error + string" where
  "py_str v =
     (case v of
        PStr s \<Rightarrow> Inr s
      | PInt n \<Rightarrow> Inr (if n < 0 then CHR ''-'' # dec (nat (- n)) else dec (nat n))
      | _ \<Rightarrow> Inl NotModelled)"

text \<open>\<open>f"{v:012d}"\<close>: only an integer accepts the format code \<open>d\<close>.\<close>

definition py_format_012d :: "pyval \<Rightarrow> py_error + string" where
  "py_format_012d v =
     (case v of
        PInt n \<Rightarrow> Inr (format_012d n)
      | PStr _ \<Rightarrow> Inl (ValueError ''Unknown format code d for object of type str'')
      | _ \<Rightarrow> Inl TypeError)"

text \<open>
  \<open>hashlib.sha256(src.encode("UTF-8")).hexdigest()\<close> is the parameter \<open>sha256_hexdigest\<close>.
\<close>

definition s3_object_id :: "(string \<Rightarrow> string) \<Rightarrow> pydict \<Rightarrow> py_error + string" where
  "s3_object_id sha256_hexdigest event_payload =
     ebind (ebind (dict_get event_payload ''fields'') (\<lambda>f.
            ebind (getitem f ''log'') (\<lambda>l. getitem l ''offset''))) (\<lambda>offset.
     ebind (ebind (dict_get event_payload ''fields'') (\<lambda>f.
            ebind (getitem f ''aws'') (\<lambda>a.
            ebind (getitem a ''s3'') (\<lambda>s.
            ebind (getitem s ''bucket'') (\<lambda>b. getitem b ''arn''))))) (\<lambda>bucket_arn.
     ebind (ebind (dict_get event_payload ''fields'') (\<lambda>f.
            ebind (getitem f ''aws'') (\<lambda>a.
            ebind (getitem a ''s3'') (\<lambda>s.
            ebind (getitem s ''object'') (\<lambda>b. getitem b ''key''))))) (\<lambda>object_key.
     ebind (py_str bucket_arn) (\<lambda>arn.
     ebind (py_str object_key) (\<lambda>key.
       let src = arn @ key;
           hex_prefix = take 10 (sha256_hexdigest src)
       in ebind (py_format_012d offset) (\<lambda>padded. Inr (hex_prefix @ ''-'' @ padded)))))))"

subsection \<open>\<open>_enrich_event\<close>\<close>

text \<open>\<open>self._dataset.replace(".", "-")\<close>\<close>

definition replace_dot :: "string \<Rightarrow> string" where
  "replace_dot s = map (\<lambda>c. if c = CHR ''.'' then CHR ''-'' else c) s"

text \<open>
  The method mutates the event in place: the result carries the event as it is when the method
  returns or raises. \<open>data_stream\<close> is stored before \<open>fields.message\<close> is read.
\<close>

definition enrich_event :: "shipper \<Rightarrow> pydict \<Rightarrow> py_error option \<times> pydict" where
  "enrich_event self event_payload =
     (let e1 = dict_set event_payload ''data_stream''
                 (PDict [(''type'', PStr ''logs''), (''dataset'', PStr (dataset self)),
                         (''namespace'', PStr (namespace self))])
      in case ebind (dict_get e1 ''fields'') (\<lambda>f. getitem f ''message'') of
           Inl err \<Rightarrow> (Some err, e1)
         | Inr message \<Rightarrow>
             (let e2 = dict_set e1 ''event''
                         (PDict [(''dataset'', PStr (dataset self)), (''original'', message)]);
                  e3 = dict_set e2 ''tags''
                         (PList (map PStr ([''preserve_original_event'', ''forwarded'',
                                            replace_dot (dataset self)] @ tags self)))
              in (None, e3)))"

subsection \<open>\<open>_handle_outcome\<close>\<close>

text \<open>
  The list comprehension \<open>[action for action in self._bulk_actions if action["_id"] ==
  error["create"]["_id"]]\<close>, both subscripts evaluated for each action in turn.
\<close>

fun action_failed :: "pydict list \<Rightarrow> pyval \<Rightarrow> py_error + pydict list" where
  "action_failed [] error = Inr []"
| "action_failed (action # actions) error =
     ebind (dict_get action ''_id'') (\<lambda>action_id.
     ebind (getitem error ''create'') (\<lambda>created.
     ebind (getitem created ''_id'') (\<lambda>error_id.
     ebind (action_failed actions error) (\<lambda>rest.
       Inr (if action_id = error_id then action # rest else rest)))))"

text \<open>The loop over \<open>errors[1]\<close>; a failing \<open>assert\<close> leaves the loop with AssertionError.\<close>

fun handle_errors :: "shipper \<Rightarrow> world \<Rightarrow> pyval list \<Rightarrow> py_error option \<times> world" where
  "handle_errors self w [] = (None, w)"
| "handle_errors self w (error # errors) =
     (case action_failed (bulk_actions self) error of
        Inl e \<Rightarrow> (Some e, w)
      | Inr failed \<Rightarrow>
          if length failed \<noteq> 1 then (Some AssertionError, w)
          else
            let w' = (if replay_handler self
                      then w\<lparr>replay_calls := replay_calls w @
                                [(''elasticsearch'', replay_args self, hd failed)]\<rparr>
                      else w)
            in handle_errors self w' errors)"

definition handle_outcome :: "shipper \<Rightarrow> world \<Rightarrow> int \<times> pyval list \<Rightarrow> py_error option \<times> world" where
  "handle_outcome self w errors = handle_errors self w (snd errors)"

subsection \<open>\<open>send\<close> and \<open>flush\<close>\<close>

text \<open>
  A method returns the exception it raised, if any, with the shipper, the world and the event as
  they are at that moment: the mutations made before a \<open>raise\<close> stay.
\<close>

definition send ::
  "(string \<Rightarrow> string) \<Rightarrow> es_cluster \<Rightarrow> shipper \<Rightarrow> world \<Rightarrow> pydict
     \<Rightarrow> py_error option \<times> shipper \<times> world \<times> pydict" where
  "send sha256_hexdigest es self w event =
     (let self1 = self\<lparr>replay_args := dict_set (replay_args self) ''dataset'' (PStr (dataset self))\<rparr>;
          (err, event1) = enrich_event self1 event
      in (case err of
           Some e \<Rightarrow> (Some e, self1, w, event1)
         | None \<Rightarrow>
            (if es_index self1 = None \<or> es_index self1 = Some []
             then (Some (ValueError ''Elasticsearch index cannot be empty''), self1, w, event1)
             else
               (let event2 = dict_set event1 ''_op_type'' (PStr ''create'');
                    event3 = (if map_of event2 ''_index'' = None
                              then dict_set event2 ''_index'' (PStr (the (es_index self1)))
                              else event2)
                in (case (if map_of event3 ''_id'' = None
                          then ebind (s3_object_id sha256_hexdigest event3)
                                 (\<lambda>i. Inr (dict_set event3 ''_id'' (PStr i)))
                          else Inr event3) of
                     Inl e \<Rightarrow> (Some e, self1, w, event3)
                   | Inr event4 \<Rightarrow>
                      (let self2 = self1\<lparr>bulk_actions := bulk_actions self1 @ [event4]\<rparr>
                       in (if int (length (bulk_actions self2)) < bulk_batch_size self2
                           then (None, self2, w, event4)
                           else
                            (let (errors, w1) = es_bulk es w (bulk_actions self2) (bulk_kwargs self2);
                                 (err2, w2) = handle_outcome self2 w1 errors
                             in (case err2 of
                                   Some e \<Rightarrow> (Some e, self2, w2, event4)
                                 | None \<Rightarrow> (None, self2\<lparr>bulk_actions := []\<rparr>, w2, event4))))))))))"

definition flush :: "es_cluster \<Rightarrow> shipper \<Rightarrow> world \<Rightarrow> py_error option \<times> shipper \<times> world" where
  "flush es self w =
     (if length (bulk_actions self) > 0
      then
        let (errors, w1) = es_bulk es w (bulk_actions self) (bulk_kwargs self);
            (err, w2) = handle_outcome self w1 errors
        in case err of
             Some e \<Rightarrow> (Some e, self, w2)
           | None \<Rightarrow> (None, self\<lparr>bulk_actions := []\<rparr>, w2)
      else (None, self\<lparr>bulk_actions := []\<rparr>, w))"

subsection \<open>\<open>discover_dataset\<close>\<close>

text \<open>The chain of substring tests on the object key; the first that holds gives the dataset.\<close>

definition dataset_of_key :: "pyval \<Rightarrow> py_error + string" where
  "dataset_of_key s3_object_key =
     ebind (py_in ''/CloudTrail/'' s3_object_key) (\<lambda>c1.
     ebind (if c1 then Inr True else py_in ''/CloudTrail-Digest/'' s3_object_key) (\<lambda>c2.
     ebind (if c2 then Inr True else py_in ''/CloudTrail-Insight/'' s3_object_key) (\<lambda>c3.
       if c3 then Inr ''aws.cloudtrail''
       else
     ebind (py_in ''exportedlogs'' s3_object_key) (\<lambda>d1.
     ebind (if d1 then Inr True else py_in ''awslogs'' s3_object_key) (\<lambda>d2.
       if d2 then Inr ''aws.cloudwatch_logs''
       else
     ebind (py_in ''/elasticloadbalancing/'' s3_object_key) (\<lambda>e1.
       if e1 then Inr ''aws.elb_logs''
       else
     ebind (py_in ''/network-firewall/'' s3_object_key) (\<lambda>f1.
       if f1 then Inr ''aws.firewall_logs''
       else
     ebind (py_in ''lambda'' s3_object_key) (\<lambda>g1.
       if g1 then Inr ''aws.lambda''
       else
     ebind (py_in ''/SMSUsageReports/'' s3_object_key) (\<lambda>h1.
       if h1 then Inr ''aws.sns''
       else
     ebind (py_in ''/StorageLens/'' s3_object_key) (\<lambda>i1.
       if i1 then Inr ''aws.s3_storage_lens''
       else
     ebind (py_in ''/vpcflowlogs/'' s3_object_key) (\<lambda>j1.
       if j1 then Inr ''aws.vpcflow''
       else
     ebind (py_in ''/WAFLogs/'' s3_object_key) (\<lambda>k1.
       if k1 then Inr ''aws.waf'' else Inr ''generic''))))))))))))"

text \<open>
  \<open>json.loads\<close> is the parameter \<open>json_loads\<close>; the body is read only while the dataset is
  empty. The method ends by creating \<open>_es_index\<close>.
\<close>

definition discover_dataset ::
  "(pyval \<Rightarrow> py_error + pyval) \<Rightarrow> shipper \<Rightarrow> pydict \<Rightarrow> py_error + shipper" where
  "discover_dataset json_loads self event =
     ebind
       (if dataset self = []
        then
          ebind (dict_get event ''Records'') (\<lambda>rs.
          ebind (getitem0 rs) (\<lambda>r0.
          ebind (getitem r0 ''body'') (\<lambda>body.
          ebind (json_loads body) (\<lambda>json_body.
          ebind (py_in ''Records'' json_body) (\<lambda>has_records.
          ebind (if has_records
                 then ebind (getitem json_body ''Records'') (\<lambda>jrs.
                      ebind (py_len jrs) (\<lambda>n.
                        if n > 0
                        then ebind (getitem0 jrs) (\<lambda>j0.
                             ebind (py_in ''s3'' j0) (\<lambda>has_s3.
                               if has_s3
                               then ebind (getitem j0 ''s3'') (\<lambda>s3.
                                    ebind (getitem s3 ''object'') (\<lambda>obj. getitem obj ''key''))
                               else Inr (PStr [])))
                        else Inr (PStr [])))
                 else Inr (PStr [])) (\<lambda>s3_object_key.
            if s3_object_key = PStr [] then Inr (self\<lparr>dataset := ''generic''\<rparr>)
            else ebind (dataset_of_key s3_object_key) (\<lambda>ds. Inr (self\<lparr>dataset := ds\<rparr>))))))))
        else Inr self)
       (\<lambda>self1. Inr (self1\<lparr>es_index := Some (''logs-'' @ dataset self1 @ ''-'' @ namespace self1)\<rparr>))"

section \<open>storage/decorator.py\<close>

subsection \<open>Bytes, text and the standard library\<close>

text \<open>
  \<open>bytes\<close> is a list of 8-bit characters; \<open>str\<close>, where the source decodes, is the list of
  its code points. A stage yields tuples \<open>(data, starting_offset, ending_offset, newline,
  event_expanded_offset)\<close>.
\<close>

type_synonym bytes = string

type_synonym stream_record = "bytes \<times> int \<times> int \<times> bytes \<times> int option"

text \<open>
  A generator is the list of what it yields and the exception that ends it, if any: the
  consumer has seen every yielded element before the exception reaches it.
\<close>

type_synonym 'a generator = "'a list \<times> py_error option"

definition LF :: bytes where
  "LF = [CHR 0x0A]"

definition CRLF :: bytes where
  "CRLF = [CHR 0x0D, CHR 0x0A]"

text \<open>
  \<open>b.decode("utf-8")\<close>, strict: \<open>None\<close> is UnicodeDecodeError (a byte that cannot start a
  character, a missing or wrong continuation byte, an overlong form, a surrogate, a code point
  above U+10FFFF).
\<close>

definition is_continuation :: "nat \<Rightarrow> bool" where
  "is_continuation b = (128 \<le> b \<and> b < 192)"

fun utf8_decode :: "bytes \<Rightarrow> nat list option" where
  "utf8_decode [] = Some []"
| "utf8_decode (c # cs) =
     (let b0 = (of_char c :: nat) in
      if b0 < 128 then map_option ((#) b0) (utf8_decode cs)
      else if 194 \<le> b0 \<and> b0 < 224 then
        (case cs of
           c1 # r \<Rightarrow>
             (let b1 = (of_char c1 :: nat) in
              if is_continuation b1
              then map_option ((#) ((b0 - 192) * 64 + (b1 - 128))) (utf8_decode r)
              else None)
         | _ \<Rightarrow> None)
      else if 224 \<le> b0 \<and> b0 < 240 then
        (case cs of
           c1 # c2 # r \<Rightarrow>
             (let b1 = (of_char c1 :: nat); b2 = (of_char c2 :: nat);
                  cp = (b0 - 224) * 4096 + (b1 - 128) * 64 + (b2 - 128) in
              if is_continuation b1 \<and> is_continuation b2 \<and> 2048 \<le> cp
                 \<and> \<not> (55296 \<le> cp \<and> cp < 57344)
              then map_option ((#) cp) (utf8_decode r)
              else None)
         | _ \<Rightarrow> None)
      else if 240 \<le> b0 \<and> b0 < 245 then
        (case cs of
           c1 # c2 # c3 # r \<Rightarrow>
             (let b1 = (of_char c1 :: nat); b2 = (of_char c2 :: nat); b3 = (of_char c3 :: nat);
                  cp = (b0 - 240) * 262144 + (b1 - 128) * 4096 + (b2 - 128) * 64 + (b3 - 128) in
              if is_continuation b1 \<and> is_continuation b2 \<and> is_continuation b3
                 \<and> 65536 \<le> cp \<and> cp < 1114112
              then map_option ((#) cp) (utf8_decode r)
              else None)
         | _ \<Rightarrow> None)
      else None)"

text \<open>
  \<open>s.encode("utf-8")\<close>. The source encodes only text it has just decoded, which holds no
  surrogate, so the call cannot raise.
\<close>

definition utf8_encode_char :: "nat \<Rightarrow> bytes" where
  "utf8_encode_char cp =
     (if cp < 128 then [char_of cp]
      else if cp < 2048 then [char_of (192 + cp div 64), char_of (128 + cp mod 64)]
      else if cp < 65536 then
        [char_of (224 + cp div 4096), char_of (128 + cp div 64 mod 64), char_of (128 + cp mod 64)]
      else
        [char_of (240 + cp div 262144), char_of (128 + cp div 4096 mod 64),
         char_of (128 + cp div 64 mod 64), char_of (128 + cp mod 64)])"

definition utf8_encode :: "nat list \<Rightarrow> bytes" where
  "utf8_encode s = concat (map utf8_encode_char s)"

text \<open>
  \<open>str.splitlines()\<close>: the line boundaries are \<open>\n\<close>, \<open>\r\<close>, \<open>\r\n\<close>, \<open>\v\<close>, \<open>\f\<close>,
  \<open>\x1c\<close>, \<open>\x1d\<close>, \<open>\x1e\<close>, \<open>\x85\<close>, U+2028 and U+2029; the boundaries are dropped, and a
  text that ends on a boundary has no empty last line.
\<close>

definition is_linebreak :: "nat \<Rightarrow> bool" where
  "is_linebreak c = (c \<in> {10, 11, 12, 13, 28, 29, 30, 133, 8232, 8233})"

fun splitlines :: "nat list \<Rightarrow> nat list list" where
  "splitlines [] = []"
| "splitlines (c # cs) =
     (if is_linebreak c
      then (if c = 13 \<and> cs \<noteq> [] \<and> hd cs = 10 then [] # splitlines (tl cs)
            else [] # splitlines cs)
      else (case splitlines cs of [] \<Rightarrow> [[c]] | l # ls \<Rightarrow> (c # l) # ls))"

text \<open>\<open>str.lstrip()\<close> without argument removes leading whitespace (\<open>str.isspace\<close>).\<close>

definition py_isspace :: "nat \<Rightarrow> bool" where
  "py_isspace c =
     ((9 \<le> c \<and> c \<le> 13) \<or> (28 \<le> c \<and> c \<le> 32) \<or> c = 133 \<or> c = 160 \<or> c = 5760
      \<or> (8192 \<le> c \<and> c \<le> 8202) \<or> c = 8232 \<or> c = 8233 \<or> c = 8239 \<or> c = 8287
      \<or> c = 12288)"

text \<open>\<open>b.find(sub)\<close>: the lowest index where \<open>sub\<close> starts, or \<open>-1\<close>.\<close>

fun bytes_find_from :: "int \<Rightarrow> bytes \<Rightarrow> bytes \<Rightarrow> int" where
  "bytes_find_from i [] sub = (if sub = [] then i else - 1)"
| "bytes_find_from i (b # bs) sub =
     (if startswith (b # bs) sub then i else bytes_find_from (i + 1) bs sub)"

definition bytes_find :: "bytes \<Rightarrow> bytes \<Rightarrow> int" where
  "bytes_find b sub = bytes_find_from 0 b sub"

text \<open>\<open>b.count(sub)\<close>: the occurrences of \<open>sub\<close> that do not overlap, from the left.\<close>

function count_nonempty :: "bytes \<Rightarrow> bytes \<Rightarrow> nat" where
  "count_nonempty [] sub = 0"
| "count_nonempty (b # bs) sub =
     (if sub \<noteq> [] \<and> startswith (b # bs) sub
      then Suc (count_nonempty (drop (length sub) (b # bs)) sub)
      else count_nonempty bs sub)"
  by pat_completeness auto
termination
  by (relation "measure (\<lambda>(b, sub). length b)") auto

definition bytes_count :: "bytes \<Rightarrow> bytes \<Rightarrow> nat" where
  "bytes_count b sub = (if sub = [] then length b + 1 else count_nonempty b sub)"

text \<open>\<open>sep.join(parts)\<close>\<close>

fun bytes_join :: "bytes \<Rightarrow> bytes list \<Rightarrow> bytes" where
  "bytes_join sep [] = []"
| "bytes_join sep [x] = x"
| "bytes_join sep (x # y # ys) = x @ sep @ bytes_join sep (y # ys)"

subsection \<open>\<open>by_lines\<close>\<close>

text \<open>
  The inner loop \<open>for line in lines\<close>: it yields one record for each line and returns the
  \<open>ending_offset\<close> it has reached.
\<close>

fun by_lines_yield :: "nat list list \<Rightarrow> int \<Rightarrow> bytes \<Rightarrow> stream_record list \<times> int" where
  "by_lines_yield [] ending_offset newline = ([], ending_offset)"
| "by_lines_yield (line # lines) ending_offset newline =
     (let line_encoded = utf8_encode line;
          starting_offset = ending_offset;
          ending_offset' = ending_offset + int (length line_encoded) + int (length newline);
          (rest, final) = by_lines_yield lines ending_offset' newline
      in ((line_encoded, starting_offset, ending_offset', newline, None) # rest, final))"

text \<open>
  The body of the loop over the chunks of the upstream stage, on the local variables
  \<open>(ending_offset, unfinished_line)\<close>.
\<close>

definition by_lines_chunk ::
  "int \<times> bytes \<Rightarrow> bytes \<Rightarrow> py_error + stream_record list \<times> (int \<times> bytes)" where
  "by_lines_chunk st data =
     (let (ending_offset, unfinished_line) = st;
          unfinished_line1 = unfinished_line @ data
      in case utf8_decode unfinished_line1 of
           None \<Rightarrow> Inl UnicodeDecodeError
         | Some decoded \<Rightarrow>
             (let lines = splitlines decoded
              in if length lines = 0 then Inr ([], (ending_offset, unfinished_line1))
                 else
                   (let newline = (if bytes_find unfinished_line1 CRLF > - 1 then CRLF
                                   else if bytes_find unfinished_line1 LF > - 1 then LF
                                   else []);
                        unfinished_line2 =
                          (if endswith unfinished_line1 newline
                           then utf8_encode (last lines) @ newline
                           else utf8_encode (last lines));
                        (records, ending_offset') =
                          by_lines_yield (butlast lines) ending_offset newline
                    in Inr (records, (ending_offset', unfinished_line2)))))"

fun by_lines_loop ::
  "int \<times> bytes \<Rightarrow> bytes list \<Rightarrow> stream_record list \<times> (py_error + int \<times> bytes)" where
  "by_lines_loop st [] = ([], Inr st)"
| "by_lines_loop st (data # chunks) =
     (case by_lines_chunk st data of
        Inl e \<Rightarrow> ([], Inl e)
      | Inr (records, st') \<Rightarrow>
          (let (rest, r) = by_lines_loop st' chunks in (records @ rest, r)))"

text \<open>After the loop: what is left in \<open>unfinished_line\<close> is yielded as the last record.\<close>

definition by_lines_tail :: "int \<times> bytes \<Rightarrow> stream_record list" where
  "by_lines_tail st =
     (let (ending_offset, unfinished_line) = st
      in if length unfinished_line > 0
         then
           (let newline = (if endswith unfinished_line CRLF then CRLF
                           else if endswith unfinished_line LF then LF
                           else []);
                unfinished_line' = py_rstrip newline unfinished_line;
                starting_offset = ending_offset;
                ending_offset' = ending_offset + int (length unfinished_line')
                                   + int (length newline)
            in [(unfinished_line', starting_offset, ending_offset', newline, None)])
         else [])"

text \<open>
  The decorated function. The upstream stage (\<open>inflate\<close>) yields chunks of bytes, of which
  \<open>by_lines\<close> reads the data only.
\<close>

definition by_lines :: "int \<Rightarrow> bytes generator \<Rightarrow> stream_record generator" where
  "by_lines range_start upstream =
     (case by_lines_loop (range_start, []) (fst upstream) of
        (records, Inl e) \<Rightarrow> (records, Some e)
      | (records, Inr st) \<Rightarrow>
          (case snd upstream of
             Some e \<Rightarrow> (records, Some e)
           | None \<Rightarrow> (records @ by_lines_tail st, None)))"

subsection \<open>The storage and its capabilities\<close>

text \<open>
  The attributes of the storage that the stages read. The multiline processor and the event
  list expander are injected objects: the processor is the function from the \<open>(data, newline)\<close>
  pairs it is fed to the \<open>(data, ending offset, newline)\<close> triples that \<open>collect()\<close> yields; the
  expander is its method \<open>expand\<close>. \<open>json_parser\<close>, a parameter of the collector, gives \<open>None\<close>
  where the parser raises ValueError.
\<close>

type_synonym multiline = "(bytes \<times> bytes) list \<Rightarrow> (bytes \<times> int \<times> bytes) list"

type_synonym 'j expander =
  "bytes \<Rightarrow> 'j option \<Rightarrow> int \<Rightarrow> int \<Rightarrow> (bytes \<times> int \<times> int \<times> int option) list"

record 'j storage =
  json_content_type :: string
  multiline_processor :: "multiline option"
  event_list_from_field_expander :: "'j expander option"

subsection \<open>\<open>multi_line\<close>\<close>

fun multi_line_yield :: "int \<Rightarrow> (bytes \<times> int \<times> bytes) list \<Rightarrow> stream_record list" where
  "multi_line_yield ending_offset [] = []"
| "multi_line_yield ending_offset ((multiline_data, multiline_ending_offset, newline) # rest) =
     (let starting_offset = ending_offset;
          ending_offset' = ending_offset + multiline_ending_offset
      in (multiline_data, starting_offset, ending_offset', newline, None)
           # multi_line_yield ending_offset' rest)"

definition multi_line ::
  "'j storage \<Rightarrow> int \<Rightarrow> stream_record generator \<Rightarrow> stream_record generator" where
  "multi_line storage range_start upstream =
     (case multiline_processor storage of
        None \<Rightarrow> upstream
      | Some collect \<Rightarrow>
          (multi_line_yield range_start
             (collect (map (\<lambda>(data, _, _, newline, _). (data, newline)) (fst upstream))),
           snd upstream))"

subsection \<open>\<open>json_collector\<close>\<close>

record json_collector_state =
  starting_offset :: int
  ending_offset :: int
  unfinished_line :: bytes
  has_an_object_start :: bool
  is_a_json_object :: bool
  is_a_json_object_circuit_broken :: bool
  is_a_json_object_circuit_breaker :: int

definition new_json_collector_state :: json_collector_state where
  "new_json_collector_state =
     \<lparr>starting_offset = 0, ending_offset = 0, unfinished_line = [],
      has_an_object_start = False, is_a_json_object = False,
      is_a_json_object_circuit_broken = False, is_a_json_object_circuit_breaker = 0\<rparr>"

definition handle_offset :: "int \<Rightarrow> json_collector_state \<Rightarrow> json_collector_state" where
  "handle_offset offset_skew s =
     s\<lparr>starting_offset := ending_offset s, ending_offset := ending_offset s + offset_skew\<rparr>"

text \<open>\<open>data_to_yield.strip(b"\r\n").strip(b"\n")\<close>\<close>

definition strip_newlines :: "bytes \<Rightarrow> bytes" where
  "strip_newlines b = py_strip LF (py_strip CRLF b)"

text \<open>
  \<open>_collector\<close> yields at most one pair, as the last statement of the branch it takes: the
  result is what it yields and the state it leaves.
\<close>

definition collector ::
  "(bytes \<Rightarrow> 'j option) \<Rightarrow> bytes \<Rightarrow> bytes \<Rightarrow> json_collector_state
     \<Rightarrow> (bytes \<times> 'j option) list \<times> json_collector_state" where
  "collector json_parser data newline s =
     (let s1 = s\<lparr>unfinished_line := unfinished_line s @ data @ newline\<rparr>
      in case json_parser (unfinished_line s1) of
           Some json_object \<Rightarrow>
             (let data_to_yield = unfinished_line s1;
                  s2 = s1\<lparr>unfinished_line := []\<rparr>;
                  s3 = handle_offset (int (length data_to_yield)) s2;
                  s4 = (if newline \<noteq> []
                        then s3\<lparr>is_a_json_object_circuit_breaker :=
                                  is_a_json_object_circuit_breaker s3
                                    - (int (bytes_count data_to_yield newline) - 1)\<rparr>
                        else s3\<lparr>is_a_json_object_circuit_breaker :=
                                  is_a_json_object_circuit_breaker s3 - 1\<rparr>);
                  data_to_yield' = strip_newlines data_to_yield;
                  s5 = s4\<lparr>is_a_json_object := True\<rparr>
              in ([(data_to_yield', Some json_object)], s5))
         | None \<Rightarrow>
             (if is_a_json_object s1 \<and> length (strip_newlines (unfinished_line s1)) = 0
              then
                (let s2 = s1\<lparr>unfinished_line := []\<rparr>;
                     s3 = handle_offset (int (length newline)) s2
                 in ([([], None)], s3))
              else
                (let s2 = s1\<lparr>is_a_json_object_circuit_breaker :=
                               is_a_json_object_circuit_breaker s1 + 1\<rparr>
                 in ([], if is_a_json_object_circuit_breaker s2 > 1000
                         then s2\<lparr>is_a_json_object_circuit_broken := True\<rparr>
                         else s2))))"

text \<open>
  \<open>_by_lines_fallback\<close>: the buffer goes through \<open>by_lines\<close> as one chunk, from the current
  ending offset. For each line the state is advanced and reset; both callers yield the line
  with the offsets the state then has, which is the record listed here.
\<close>

fun fallback_yield ::
  "json_collector_state \<Rightarrow> stream_record list \<Rightarrow> stream_record list \<times> json_collector_state" where
  "fallback_yield s [] = ([], s)"
| "fallback_yield s ((line, _, _, newline, _) # rest) =
     (let s1 = handle_offset (int (length line) + int (length newline)) s;
          s2 = s1\<lparr>unfinished_line := [], has_an_object_start := False\<rparr>;
          (out, s3) = fallback_yield s2 rest
      in ((line, starting_offset s2, ending_offset s2, newline, None) # out, s3))"

definition by_lines_fallback ::
  "json_collector_state \<Rightarrow> stream_record generator \<times> json_collector_state" where
  "by_lines_fallback s =
     (let (lines, err) = by_lines (ending_offset s) ([unfinished_line s], None);
          (out, s') = fallback_yield s lines
      in ((out, err), s'))"

text \<open>What the wrapper yields for one pair that \<open>_collector\<close> has yielded.\<close>

definition collected_records ::
  "'j storage \<Rightarrow> bytes \<Rightarrow> json_collector_state \<Rightarrow> bytes \<times> 'j option \<Rightarrow> stream_record list" where
  "collected_records storage newline s collected =
     (let (data_to_yield, json_object) = collected
      in case event_list_from_field_expander storage of
           Some expand \<Rightarrow>
             map (\<lambda>(expanded_log_event, expanded_starting_offset, expanded_ending_offset,
                     expanded_event_n).
                    (expanded_log_event, expanded_starting_offset, expanded_ending_offset,
                     newline, expanded_event_n))
                 (expand data_to_yield json_object (starting_offset s) (ending_offset s))
         | None \<Rightarrow> [(data_to_yield, starting_offset s, ending_offset s, newline, None)])"

text \<open>
  The body of the loop over the upstream records in the mode \<open>ndjson\<close> (and \<open>single\<close> with an
  expander), in its two parts. First, while no object has started: a record whose text begins,
  after leading whitespace, with \<open>{\<close> marks the start, and any other record is forwarded as
  it is.
\<close>

definition json_collector_forward ::
  "json_collector_state \<Rightarrow> stream_record
     \<Rightarrow> py_error + stream_record list \<times> json_collector_state" where
  "json_collector_forward s upstream_record =
     (let (data, starting_offset', ending_offset', newline, _) = upstream_record
      in if \<not> has_an_object_start s
         then
           (case utf8_decode data of
              None \<Rightarrow> Inl UnicodeDecodeError
            | Some decoded \<Rightarrow>
                (let stripped_data = dropWhile py_isspace decoded;
                     s1 = (if length stripped_data > 0 \<and> hd stripped_data = 123
                           then s\<lparr>has_an_object_start := True\<rparr> else s)
                 in if \<not> has_an_object_start s1
                    then Inr ([(data, starting_offset', ending_offset', newline, None)],
                              handle_offset (int (length data) + int (length newline)) s1)
                    else Inr ([], s1)))
         else Inr ([], s))"

text \<open>
  Then, once an object has started: the record goes to \<open>_collector\<close>, and when the circuit
  is broken the buffer goes through the fallback. The result is the records yielded, and the
  state left or the exception raised.
\<close>

definition json_collector_step ::
  "'j storage \<Rightarrow> (bytes \<Rightarrow> 'j option) \<Rightarrow> json_collector_state \<Rightarrow> stream_record
     \<Rightarrow> stream_record list \<times> (py_error + json_collector_state)" where
  "json_collector_step storage json_parser s upstream_record =
     (let (data, starting_offset', ending_offset', newline, _) = upstream_record
      in case json_collector_forward s upstream_record of
           Inl e \<Rightarrow> ([], Inl e)
         | Inr (forwarded, s1) \<Rightarrow>
             (if has_an_object_start s1
              then
                (let (collected, s2) = collector json_parser data newline s1;
                     objects = concat (map (collected_records storage newline s2) collected)
                 in if is_a_json_object_circuit_broken s2
                    then
                      (let ((lines, err), s3) = by_lines_fallback s2
                       in (forwarded @ objects @ lines,
                           (case err of Some e \<Rightarrow> Inl e | None \<Rightarrow> Inr s3)))
                    else (forwarded @ objects, Inr s2))
              else (forwarded, Inr s1)))"

fun json_collector_loop ::
  "'j storage \<Rightarrow> (bytes \<Rightarrow> 'j option) \<Rightarrow> json_collector_state \<Rightarrow> stream_record list
     \<Rightarrow> stream_record list \<times> (py_error + json_collector_state)" where
  "json_collector_loop storage json_parser s [] = ([], Inr s)"
| "json_collector_loop storage json_parser s (r # rs) =
     (case json_collector_step storage json_parser s r of
        (out, Inl e) \<Rightarrow> (out, Inl e)
      | (out, Inr s') \<Rightarrow>
          (let (rest, res) = json_collector_loop storage json_parser s' rs
           in (out @ rest, res)))"

text \<open>
  The end of the wrapper in the modes \<open>single\<close> and \<open>ndjson\<close>: when no object was collected,
  what is left in the buffer goes through the fallback.
\<close>

definition json_collector_drain ::
  "json_collector_state \<Rightarrow> stream_record list \<times> (py_error + json_collector_state)" where
  "json_collector_drain s =
     (if \<not> is_a_json_object s
      then (let ((lines, err), s') = by_lines_fallback s
            in (lines, (case err of Some e \<Rightarrow> Inl e | None \<Rightarrow> Inr s')))
      else ([], Inr s))"

text \<open>
  The wrapper, with the state in which it ends: \<open>json_collector\<close> below is the generator
  the caller sees.
\<close>

definition json_collector_run ::
  "'j storage \<Rightarrow> (bytes \<Rightarrow> 'j option) \<Rightarrow> int \<Rightarrow> stream_record generator
     \<Rightarrow> stream_record list \<times> (py_error + json_collector_state)" where
  "json_collector_run storage json_parser range_start upstream =
     (if json_content_type storage = ''disabled'' \<or> multiline_processor storage \<noteq> None
      then (map (\<lambda>(data, starting_offset', ending_offset', newline, _).
                   (data, starting_offset', ending_offset', newline, None)) (fst upstream),
            (case snd upstream of
               Some e \<Rightarrow> Inl e
             | None \<Rightarrow> Inr new_json_collector_state))
      else
        (let s0 = new_json_collector_state\<lparr>ending_offset := range_start\<rparr>
         in if json_content_type storage = ''single''
               \<and> event_list_from_field_expander storage = None
            then
              (case snd upstream of
                 Some e \<Rightarrow> ([], Inl e)
               | None \<Rightarrow>
                   (case fst upstream of
                      [] \<Rightarrow> ([], Inl IndexError)
                    | first # _ \<Rightarrow>
                        (let newline = fst (snd (snd (snd first)));
                             starting_offset' = fst (snd first);
                             ending_offset' = fst (snd (snd (last (fst upstream))));
                             data_to_yield = bytes_join newline (map fst (fst upstream));
                             (lines, res) = json_collector_drain s0
                         in ((data_to_yield, starting_offset', ending_offset', newline, None)
                               # lines, res))))
            else
              (case json_collector_loop storage json_parser s0 (fst upstream) of
                 (out, Inl e) \<Rightarrow> (out, Inl e)
               | (out, Inr s) \<Rightarrow>
                   (case snd upstream of
                      Some e \<Rightarrow> (out, Inl e)
                    | None \<Rightarrow>
                        (let (lines, res) = json_collector_drain s in (out @ lines, res))))))"

definition json_collector ::
  "'j storage \<Rightarrow> (bytes \<Rightarrow> 'j option) \<Rightarrow> int \<Rightarrow> stream_record generator
     \<Rightarrow> stream_record generator" where
  "json_collector storage json_parser range_start upstream =
     (case json_collector_run storage json_parser range_start upstream of
        (out, Inl e) \<Rightarrow> (out, Some e)
      | (out, Inr s) \<Rightarrow> (out, None))"

subsection \<open>Events and shippers used as concrete inputs\<close>

text \<open>\<open>v[k1][k2]...\<close>: a chain of subscripts.\<close>

fun get_path :: "pyval \<Rightarrow> string list \<Rightarrow> py_error + pyval" where
  "get_path v [] = Inr v"
| "get_path v (k # ks) = ebind (getitem v k) (\<lambda>x. get_path x ks)"

text \<open>An event document for the object \<open>k\<close> of the bucket \<open>arn:aws:s3:::b\<close>, at offset 42.\<close>

definition claim_event :: pydict where
  "claim_event =
     [(''fields'', PDict
        [(''message'', PStr ''m''),
         (''log'', PDict [(''offset'', PInt 42)]),
         (''aws'', PDict [(''s3'', PDict
            [(''bucket'', PDict [(''arn'', PStr ''arn:aws:s3:::b'')]),
             (''object'', PDict [(''key'', PStr ''k'')])])])])]"

text \<open>A digest function that gives the same 64 hexadecimal digits for every input.\<close>

definition demo_digest :: "string \<Rightarrow> string" where
  "demo_digest src = ''9f86d081884c7d659a2feaa0c55ad015a3bf4f1b2b0b822cd15d6c15b0f00a08''"

text \<open>A cluster that accepts every action.\<close>

definition quiet_cluster :: es_cluster where
  "quiet_cluster seen actions = (int (length actions), [])"

text \<open>
  A cluster that rejects the last action of a request, as a \<open>create\<close> of an \<open>_id\<close> that is
  already indexed is rejected with status 409.
\<close>

definition conflict_cluster :: es_cluster where
  "conflict_cluster seen actions =
     (int (length actions) - 1,
      [PDict [(''create'', PDict [(''_id'', the (map_of (last actions) ''_id'')),
                                  (''status'', PInt 409)])]])"

definition empty_world :: world where
  "empty_world = \<lparr>bulk_requests = [], replay_calls = []\<rparr>"

text \<open>
  A shipper built with \<open>batch_max_actions=2\<close> and \<open>batch_max_bytes=1\<close>, before and after
  \<open>discover_dataset\<close> and \<open>set_replay_handler\<close>.
\<close>

definition unindexed_shipper :: shipper where
  "unindexed_shipper =
     projr (init_shipper ''http://localhost:9200'' ''elastic'' ''changeme'' [] [] ''generic''
              ''default'' [] 2 1)"

definition demo_shipper :: shipper where
  "demo_shipper = set_replay_handler (projr (discover_dataset Inr unindexed_shipper []))"

text \<open>One \<open>send\<close> on the fresh shipper, then \<open>flush\<close>.\<close>

definition first_send :: "py_error option \<times> shipper \<times> world \<times> pydict" where
  "first_send = send demo_digest quiet_cluster demo_shipper empty_world claim_event"

definition first_flush :: "py_error option \<times> shipper \<times> world" where
  "first_flush = flush quiet_cluster (fst (snd first_send)) (fst (snd (snd first_send)))"

text \<open>The same event sent twice to a cluster that rejects the duplicate.\<close>

definition second_send :: "py_error option \<times> shipper \<times> world \<times> pydict" where
  "second_send =
     (case send demo_digest conflict_cluster demo_shipper empty_world claim_event of
        (err, self', w', event') \<Rightarrow> send demo_digest conflict_cluster self' w' claim_event)"

text \<open>
  A second event, which carries its own \<open>_id\<close>, sent after the first to a cluster that
  accepts it.
\<close>

definition keyed_event :: pydict where
  "keyed_event = [(''fields'', PDict [(''message'', PStr ''n'')]), (''_id'', PStr ''id-2'')]"

definition sending_send :: "py_error option \<times> shipper \<times> world \<times> pydict" where
  "sending_send =
     send demo_digest quiet_cluster (fst (snd first_send)) (fst (snd (snd first_send))) keyed_event"

subsection \<open>Notions for the statements about the stream stages\<close>

text \<open>
  The bytes that a list of records accounts for (payload and newline of each), and the
  offset discipline: every record starts where the one before it ends, the first at \<open>start\<close>,
  and ends \<open>len(payload) + len(newline)\<close> further.
\<close>

fun records_span :: "stream_record list \<Rightarrow> int" where
  "records_span [] = 0"
| "records_span ((data, _, _, newline, _) # rs) =
     int (length data) + int (length newline) + records_span rs"

fun chained :: "int \<Rightarrow> stream_record list \<Rightarrow> bool" where
  "chained start [] = True"
| "chained start ((data, starting_offset', ending_offset', newline, _) # rs) =
     (starting_offset' = start
      \<and> ending_offset' = starting_offset' + int (length data) + int (length newline)
      \<and> chained ending_offset' rs)"

text \<open>
  A chunk that is valid UTF-8 on its own and whose text has no line boundary other than
  \<open>\n\<close>.
\<close>

definition lf_text :: "bytes \<Rightarrow> bool" where
  "lf_text b =
     (case utf8_decode b of
        None \<Rightarrow> False
      | Some t \<Rightarrow> list_all (\<lambda>c. is_linebreak c \<longrightarrow> c = 10) t)"

text \<open>
  Texts: without any line boundary (\<open>clean\<close>), with \<open>\n\<close> as the only one (\<open>lf_only\<close>), a
  text built from complete lines and a rest (\<open>lf_join\<close>), and the shape of what \<open>by_lines\<close>
  keeps in its buffer between chunks (\<open>tail_ok\<close>).
\<close>

definition clean :: "nat list \<Rightarrow> bool" where
  "clean l = (\<forall>c \<in> set l. \<not> is_linebreak c)"

definition lf_only :: "nat list \<Rightarrow> bool" where
  "lf_only t = (\<forall>c \<in> set t. is_linebreak c \<longrightarrow> c = 10)"

definition lf_join :: "nat list list \<Rightarrow> nat list \<Rightarrow> nat list" where
  "lf_join E k = concat (map (\<lambda>l. l @ [10]) E) @ k"

definition tail_ok :: "nat list \<Rightarrow> bool" where
  "tail_ok k \<longleftrightarrow> (\<exists>l. clean l \<and> (k = l \<or> k = l @ [10]))"

text \<open>
  Code points as the decoder produces them: one above 127 is encoded in bytes above 127, and
  the encoding of each decodes back to it in front of any bytes.
\<close>

definition byte_ok :: "nat \<Rightarrow> bool" where
  "byte_ok cp \<longleftrightarrow> (128 \<le> cp \<longrightarrow> (\<forall>x \<in> set (utf8_encode_char cp). 128 \<le> (of_char x :: nat)))"

definition decodable :: "nat \<Rightarrow> bool" where
  "decodable cp \<longleftrightarrow>
     (\<forall>y. utf8_decode (utf8_encode_char cp @ y) = map_option ((#) cp) (utf8_decode y))"

definition good_text :: "nat list \<Rightarrow> bool" where
  "good_text t \<longleftrightarrow> (\<forall>cp \<in> set t. byte_ok cp \<and> decodable cp)"

text \<open>The input \<open>b"a\nbb\r\nccc"\<close>, and a storage with every capability off.\<close>

definition mixed_chunk :: bytes where
  "mixed_chunk = ''a'' @ LF @ ''bb'' @ CRLF @ ''ccc''"

definition disabled_storage :: "'j storage" where
  "disabled_storage =
     \<lparr>json_content_type = ''disabled'', multiline_processor = None,
      event_list_from_field_expander = None\<rparr>"

subsection \<open>Inputs of the checks on the JSON collector\<close>

text \<open>A storage in the mode \<open>ndjson\<close>, without multiline processor and without expander.\<close>

definition ndjson_storage :: "'j storage" where
  "ndjson_storage =
     \<lparr>json_content_type = ''ndjson'', multiline_processor = None,
      event_list_from_field_expander = None\<rparr>"

text \<open>
  The lines \<open>{"x":1}\<close> and \<open>{"y":2}\<close>, and a parser that knows these two lines only.
\<close>

definition x_line :: bytes where
  "x_line = ''{\"x\":1}''"

definition y_line :: bytes where
  "y_line = ''{\"y\":2}''"

definition xy_parser :: "bytes \<Rightarrow> pyval option" where
  "xy_parser b =
     (if b = x_line @ LF then Some (PDict [(''x'', PInt 1)])
      else if b = y_line @ LF then Some (PDict [(''y'', PInt 2)])
      else None)"

text \<open>The line \<open>{not json at all\<close>, as bytes and as text.\<close>

definition not_json_line :: bytes where
  "not_json_line = ''{not json at all''"

definition not_json_text :: "nat list" where
  "not_json_text = map of_char not_json_line"

text \<open>
  \<open>n\<close> records of the same line, each terminated by \<open>\n\<close>, one after the other from the
  offset \<open>off\<close>.
\<close>

fun line_records :: "int \<Rightarrow> bytes \<Rightarrow> nat \<Rightarrow> stream_record list" where
  "line_records off line 0 = []"
| "line_records off line (Suc n) =
     (line, off, off + int (length line) + 1, LF, None)
       # line_records (off + int (length line) + 1) line n"

text \<open>The state of a collector that starts at offset 0.\<close>

definition start_state :: json_collector_state where
  "start_state = new_json_collector_state\<lparr>ending_offset := 0\<rparr>"

text \<open>
  A stream of lines that end in \<open>\r\<close>, read as one chunk: 1000 lines \<open>{}\<close>, then 1990
  lines \<open>{not json at all\<close>. \<open>cr_join\<close> is the text of such lines, and \<open>bare_records\<close> are
  \<open>n\<close> records of the same line with an empty newline, one after the other from \<open>off\<close>.
\<close>

definition CR :: bytes where
  "CR = [CHR 0x0D]"

definition empty_object :: bytes where
  "empty_object = ''{}''"

definition empty_object_text :: "nat list" where
  "empty_object_text = map of_char empty_object"

definition cr_stream :: bytes where
  "cr_stream = concat (replicate 1000 (empty_object @ CR))
                 @ concat (replicate 1990 (not_json_line @ CR))"

definition cr_join :: "nat list list \<Rightarrow> nat list" where
  "cr_join E = concat (map (\<lambda>l. l @ [13]) E)"

fun bare_records :: "int \<Rightarrow> bytes \<Rightarrow> nat \<Rightarrow> stream_record list" where
  "bare_records off line 0 = []"
| "bare_records off line (Suc n) =
     (line, off, off + int (length line), [], None)
       # bare_records (off + int (length line)) line n"

text \<open>A parser that parses \<open>{}\<close> and nothing else.\<close>

definition empty_object_parser :: "bytes \<Rightarrow> pyval option" where
  "empty_object_parser b = (if b = empty_object then Some (PDict []) else None)"

section \<open>Properties of the trigger and URI helpers\<close>

lemma ebind_simps [simp]:
  "ebind (Inl e) f = Inl e"
  "ebind (Inr x) f = f x"
  by (simp_all add: ebind_def)

text \<open>
  C9. There is a well-formed URI \<open>s3://<bucket>/<key>\<close> for which the function does not return
  \<open>(<bucket>, <key>)\<close>: \<open>strip("s3://")\<close> removes every leading (and trailing) character of the
  set \<open>{s, 3, :, /}\<close>, so the bucket \<open>s3bucket\<close> comes back as \<open>bucket\<close>.
\<close>

theorem from_s3_uri_strips_bucket_prefix:
  "from_s3_uri_to_bucket_name_and_object_key (''s3://'' @ ''s3bucket'' @ ''/'' @ ''key'')
     = Inr (''bucket'', ''key'')
   \<and> from_s3_uri_to_bucket_name_and_object_key (''s3://'' @ ''s3bucket'' @ ''/'' @ ''key'')
     \<noteq> Inr (''s3bucket'', ''key'')"
  by (simp add: from_s3_uri_to_bucket_name_and_object_key_def startswith_def py_strip_def
      py_lstrip_def py_rstrip_def py_split1_def)

text \<open>
  C7. On an event without the \<open>Records\<close> key the guard subscripts the absent key, and on an empty
  \<open>Records\<close> list the guard is skipped and \<open>Records[0]\<close> is read: the function raises KeyError and
  IndexError there, not the "Not supported trigger" exception.
\<close>

theorem get_trigger_type_missing_or_empty_records:
  "get_trigger_type [] = Inl (KeyError ''Records'')
   \<and> get_trigger_type [(''Records'', PList [])] = Inl IndexError"
  by (simp add: get_trigger_type_def records_guard_def dict_get_def getitem0_def)

section \<open>Properties of the shipper\<close>

lemma ebind_eq_Inr: "ebind m f = Inr y \<longleftrightarrow> (\<exists>x. m = Inr x \<and> f x = Inr y)"
  by (cases m) simp_all

lemma getitem_PDict [simp]: "getitem (PDict d) k = dict_get d k"
  by (simp add: getitem_def)

lemma map_of_dict_set: "map_of (dict_set d k v) k' = (if k' = k then Some v else map_of d k')"
  by (induction d) auto

lemma dict_get_dict_set: "dict_get (dict_set d k v) k' = (if k' = k then Inr v else dict_get d k')"
  by (simp add: dict_get_def map_of_dict_set)

lemma format_012d_nonneg:
  "0 \<le> n \<Longrightarrow> format_012d n = replicate (12 - length (dec (nat n))) CHR ''0'' @ dec (nat n)"
  by (simp add: format_012d_def zfill_def)

lemma dec42: "dec 42 = ''42''"
  by (simp add: dec.simps[of 42] dec.simps[of 4] digit_char_def)

lemma zeros10: "replicate 10 CHR ''0'' = ''0000000000''"
  by (simp add: numeral_eq_Suc)

lemmas demo_defs = demo_digest_def quiet_cluster_def conflict_cluster_def empty_world_def
  unindexed_shipper_def demo_shipper_def claim_event_def init_shipper_def discover_dataset_def
  set_replay_handler_def

text \<open>
  C3. For an event document that carries \<open>fields.log.offset\<close> (an integer),
  \<open>fields.aws.s3.bucket.arn\<close> and \<open>fields.aws.s3.object.key\<close> (strings), the derived id is the
  first 10 characters of the hex digest of \<open>bucket_arn || object_key\<close>, a hyphen, and the offset
  in the format \<open>012d\<close>, which for an offset that is not negative is its decimal digits
  left-padded with zeros to 12. The right-hand side mentions the event only through the three
  values, so the id is a function of them.
\<close>

theorem s3_object_id_derivation:
  assumes "get_path (PDict event) [''fields'', ''log'', ''offset''] = Inr (PInt offset)"
      and "get_path (PDict event) [''fields'', ''aws'', ''s3'', ''bucket'', ''arn'']
             = Inr (PStr bucket_arn)"
      and "get_path (PDict event) [''fields'', ''aws'', ''s3'', ''object'', ''key'']
             = Inr (PStr object_key)"
  shows "s3_object_id sha256_hexdigest event
           = Inr (take 10 (sha256_hexdigest (bucket_arn @ object_key)) @ ''-'' @ format_012d offset)
         \<and> (0 \<le> offset \<longrightarrow>
              format_012d offset
                = replicate (12 - length (dec (nat offset))) CHR ''0'' @ dec (nat offset))"
  using assms
  by (auto simp: s3_object_id_def ebind_eq_Inr py_str_def py_format_012d_def format_012d_nonneg)

text \<open>
  The instance of the claim: bucket \<open>arn:aws:s3:::b\<close>, key \<open>k\<close>, offset 42, for every digest
  function.
\<close>

theorem s3_object_id_derivation_witness:
  "\<forall>sha256_hexdigest.
     get_path (PDict claim_event) [''fields'', ''log'', ''offset''] = Inr (PInt 42)
   \<and> get_path (PDict claim_event) [''fields'', ''aws'', ''s3'', ''bucket'', ''arn'']
       = Inr (PStr ''arn:aws:s3:::b'')
   \<and> get_path (PDict claim_event) [''fields'', ''aws'', ''s3'', ''object'', ''key'']
       = Inr (PStr ''k'')
   \<and> (0::int) \<le> 42
   \<and> s3_object_id sha256_hexdigest claim_event
       = Inr (take 10 (sha256_hexdigest ''arn:aws:s3:::bk'') @ ''-000000000042'')
   \<and> format_012d 42 = ''000000000042''"
  using s3_object_id_derivation [of claim_event 42 "''arn:aws:s3:::b''" "''k''"]
  by (simp add: claim_event_def dict_get_def format_012d_def zfill_def dec42 zeros10)

lemma handle_errors_bulk_requests:
  "handle_errors self w errors = (err, w') \<Longrightarrow> bulk_requests w' = bulk_requests w"
proof (induction errors arbitrary: w)
  case Nil
  then show ?case by simp
next
  case (Cons error errors)
  then show ?case
    by (auto simp: Let_def split: sum.splits if_splits)
qed

lemma handle_outcome_bulk_requests:
  "handle_outcome self w errors = (err, w') \<Longrightarrow> bulk_requests w' = bulk_requests w"
  by (simp add: handle_outcome_def handle_errors_bulk_requests)

lemma s3_object_id_dict_set:
  "k \<noteq> ''fields'' \<Longrightarrow> s3_object_id h (dict_set e k v) = s3_object_id h e"
  by (simp add: s3_object_id_def dict_get_dict_set)

lemma send_cases:
  assumes "send sha256_hexdigest es self w event = (err, self', w', event')"
  shows "(err \<noteq> None \<and> bulk_actions self' = bulk_actions self \<and> w' = w)
       \<or> (int (length (bulk_actions self)) + 1 < bulk_batch_size self \<and> err = None
            \<and> bulk_actions self' = bulk_actions self @ [event'] \<and> w' = w)
       \<or> (bulk_batch_size self \<le> int (length (bulk_actions self)) + 1
            \<and> bulk_requests w'
                = bulk_requests w @ [(bulk_actions self @ [event'], bulk_kwargs self)]
            \<and> bulk_actions self'
                = (if err = None then [] else bulk_actions self @ [event']))"
  using assms
  by (auto simp: send_def Let_def es_bulk_def dest!: handle_outcome_bulk_requests
      split: prod.splits option.splits sum.splits if_splits)

lemma send_accepts:
  assumes m: "get_path (PDict event) [''fields'', ''message''] = Inr message"
      and i: "es_index self = Some index" "index \<noteq> []"
      and d: "map_of event ''_id'' \<noteq> None \<or> s3_object_id sha256_hexdigest event = Inr i"
      and s: "send sha256_hexdigest es self w event = (err, self', w', event')"
  shows "err = None \<or> bulk_actions self' = bulk_actions self @ [event']"
  using assms
  by (auto simp: send_def enrich_event_def Let_def ebind_eq_Inr dict_get_dict_set
      map_of_dict_set s3_object_id_dict_set
      split: prod.splits option.splits sum.splits if_splits)

lemma first_send_eval:
  "fst first_send = None
   \<and> fst (snd first_send) = demo_shipper\<lparr>replay_args := [(''dataset'', PStr ''generic'')],
                                          bulk_actions := [snd (snd (snd first_send))]\<rparr>
   \<and> fst (snd (snd first_send)) = empty_world"
  by (simp add: first_send_def send_def enrich_event_def s3_object_id_def dict_get_def
      py_str_def py_format_012d_def Let_def demo_defs)

lemma demo_shipper_eval:
  "bulk_actions demo_shipper = [] \<and> bulk_batch_size demo_shipper = 2
   \<and> max_chunk_bytes (bulk_kwargs demo_shipper) = 1
   \<and> es_index demo_shipper = Some ''logs-generic-default''"
  by (simp add: demo_defs)

lemma sending_send_eval: "fst sending_send = None"
  using first_send_eval
  by (simp add: sending_send_def send_def enrich_event_def dict_get_def keyed_event_def
      Let_def es_bulk_def handle_outcome_def quiet_cluster_def demo_shipper_eval
      split: prod.splits)

text \<open>
  C6, as the code has it. A \<open>send\<close> either raises before it has buffered the action, and then
  leaves the batch and issues nothing, or it appends the action and then issues one bulk
  request, the whole batch with the new action, exactly when the number of buffered actions
  has reached \<open>batch_max_actions\<close>, whether or not the handling of the outcome raises; the
  batch is cleared when the \<open>send\<close> returns and kept when it raises. An event that carries
  \<open>fields.message\<close>, and an \<open>_id\<close> or what the id derives from, is always buffered by a shipper
  with an index. \<open>batch_max_bytes\<close> takes no part in the decision. \<open>flush\<close> sends a batch that
  is not empty, and the batch is empty when it returns.
\<close>

theorem send_flush_bulk_rule:
  "(send sha256_hexdigest es self w event = (err, self', w', event') \<longrightarrow>
      (err \<noteq> None \<and> bulk_actions self' = bulk_actions self \<and> w' = w)
      \<or> (int (length (bulk_actions self)) + 1 < bulk_batch_size self \<and> err = None
           \<and> bulk_actions self' = bulk_actions self @ [event'] \<and> w' = w)
      \<or> (bulk_batch_size self \<le> int (length (bulk_actions self)) + 1
           \<and> bulk_requests w'
               = bulk_requests w @ [(bulk_actions self @ [event'], bulk_kwargs self)]
           \<and> bulk_actions self'
               = (if err = None then [] else bulk_actions self @ [event'])))
   \<and> (send sha256_hexdigest es self w event = (err, self', w', event')
        \<and> get_path (PDict event) [''fields'', ''message''] = Inr message
        \<and> es_index self = Some index \<and> index \<noteq> []
        \<and> (map_of event ''_id'' \<noteq> None \<or> s3_object_id sha256_hexdigest event = Inr i) \<longrightarrow>
        (if int (length (bulk_actions self)) + 1 < bulk_batch_size self
         then err = None \<and> bulk_actions self' = bulk_actions self @ [event'] \<and> w' = w
         else bulk_requests w'
                = bulk_requests w @ [(bulk_actions self @ [event'], bulk_kwargs self)]
              \<and> bulk_actions self'
                  = (if err = None then [] else bulk_actions self @ [event'])))
   \<and> (flush es fself fw = (ferr, fself', fw') \<longrightarrow>
        bulk_requests fw' = (if bulk_actions fself = [] then bulk_requests fw
                             else bulk_requests fw @ [(bulk_actions fself, bulk_kwargs fself)])
      \<and> bulk_actions fself' = (if ferr = None then [] else bulk_actions fself))"
proof -
  have a: "send sha256_hexdigest es self w event = (err, self', w', event') \<longrightarrow>
      (err \<noteq> None \<and> bulk_actions self' = bulk_actions self \<and> w' = w)
      \<or> (int (length (bulk_actions self)) + 1 < bulk_batch_size self \<and> err = None
           \<and> bulk_actions self' = bulk_actions self @ [event'] \<and> w' = w)
      \<or> (bulk_batch_size self \<le> int (length (bulk_actions self)) + 1
           \<and> bulk_requests w'
               = bulk_requests w @ [(bulk_actions self @ [event'], bulk_kwargs self)]
           \<and> bulk_actions self'
               = (if err = None then [] else bulk_actions self @ [event']))"
    using send_cases [of sha256_hexdigest es self w event err self' w' event'] by blast
  have b: "send sha256_hexdigest es self w event = (err, self', w', event')
        \<and> get_path (PDict event) [''fields'', ''message''] = Inr message
        \<and> es_index self = Some index \<and> index \<noteq> []
        \<and> (map_of event ''_id'' \<noteq> None \<or> s3_object_id sha256_hexdigest event = Inr i) \<longrightarrow>
        (if int (length (bulk_actions self)) + 1 < bulk_batch_size self
         then err = None \<and> bulk_actions self' = bulk_actions self @ [event'] \<and> w' = w
         else bulk_requests w'
                = bulk_requests w @ [(bulk_actions self @ [event'], bulk_kwargs self)]
              \<and> bulk_actions self'
                  = (if err = None then [] else bulk_actions self @ [event']))"
  proof (intro impI, elim conjE)
    assume s: "send sha256_hexdigest es self w event = (err, self', w', event')"
      and m: "get_path (PDict event) [''fields'', ''message''] = Inr message"
      and x: "es_index self = Some index" "index \<noteq> []"
      and d: "map_of event ''_id'' \<noteq> None \<or> s3_object_id sha256_hexdigest event = Inr i"
    have "err = None \<or> bulk_actions self' = bulk_actions self @ [event']"
      by (rule send_accepts [OF m x d s])
    with send_cases [OF s] show "if int (length (bulk_actions self)) + 1 < bulk_batch_size self
         then err = None \<and> bulk_actions self' = bulk_actions self @ [event'] \<and> w' = w
         else bulk_requests w'
                = bulk_requests w @ [(bulk_actions self @ [event'], bulk_kwargs self)]
              \<and> bulk_actions self'
                  = (if err = None then [] else bulk_actions self @ [event'])"
      by auto
  qed
  have c: "flush es fself fw = (ferr, fself', fw') \<longrightarrow>
        bulk_requests fw' = (if bulk_actions fself = [] then bulk_requests fw
                             else bulk_requests fw @ [(bulk_actions fself, bulk_kwargs fself)])
      \<and> bulk_actions fself' = (if ferr = None then [] else bulk_actions fself)"
    by (auto simp: flush_def Let_def es_bulk_def dest!: handle_outcome_bulk_requests
        split: prod.splits option.splits sum.splits if_splits)
  from a b c show ?thesis by blast
qed

text \<open>
  Two \<open>send\<close>s on the shipper with \<open>batch_max_actions=2\<close>: the first appends and sends nothing,
  the second sends both actions in one request and clears the batch. A \<open>flush\<close> after the
  first \<open>send\<close> sends the one buffered action and clears the batch.
\<close>

theorem send_flush_bulk_rule_witness:
  "send demo_digest quiet_cluster demo_shipper empty_world claim_event
     = (fst first_send, fst (snd first_send), fst (snd (snd first_send)), snd (snd (snd first_send)))
   \<and> get_path (PDict claim_event) [''fields'', ''message''] = Inr (PStr ''m'')
   \<and> es_index demo_shipper = Some ''logs-generic-default''
   \<and> s3_object_id demo_digest claim_event = Inr ''9f86d08188-000000000042''
   \<and> int (length (bulk_actions demo_shipper)) + 1 < bulk_batch_size demo_shipper
   \<and> fst first_send = None
   \<and> bulk_actions (fst (snd first_send)) = [snd (snd (snd first_send))]
   \<and> fst (snd (snd first_send)) = empty_world
   \<and> send demo_digest quiet_cluster (fst (snd first_send)) (fst (snd (snd first_send))) keyed_event
       = (fst sending_send, fst (snd sending_send), fst (snd (snd sending_send)),
          snd (snd (snd sending_send)))
   \<and> get_path (PDict keyed_event) [''fields'', ''message''] = Inr (PStr ''n'')
   \<and> es_index (fst (snd first_send)) = Some ''logs-generic-default''
   \<and> map_of keyed_event ''_id'' \<noteq> None
   \<and> \<not> int (length (bulk_actions (fst (snd first_send)))) + 1
         < bulk_batch_size (fst (snd first_send))
   \<and> fst sending_send = None
   \<and> bulk_requests (fst (snd (snd sending_send)))
       = [([snd (snd (snd first_send)), snd (snd (snd sending_send))], bulk_kwargs demo_shipper)]
   \<and> bulk_actions (fst (snd sending_send)) = []
   \<and> flush quiet_cluster (fst (snd first_send)) (fst (snd (snd first_send)))
       = (fst first_flush, fst (snd first_flush), snd (snd first_flush))
   \<and> bulk_actions (fst (snd first_send)) \<noteq> []
   \<and> fst first_flush = None
   \<and> bulk_requests (snd (snd first_flush))
       = [([snd (snd (snd first_send))], bulk_kwargs demo_shipper)]
   \<and> bulk_actions (fst (snd first_flush)) = []"
proof -
  have s1: "send demo_digest quiet_cluster demo_shipper empty_world claim_event
     = (fst first_send, fst (snd first_send), fst (snd (snd first_send)), snd (snd (snd first_send)))"
    by (simp add: first_send_def)
  have m1: "get_path (PDict claim_event) [''fields'', ''message''] = Inr (PStr ''m'')"
    by (simp add: claim_event_def dict_get_def)
  have x1: "es_index demo_shipper = Some ''logs-generic-default''"
    "''logs-generic-default'' \<noteq> []"
    using demo_shipper_eval by simp_all
  have d1: "s3_object_id demo_digest claim_event = Inr ''9f86d08188-000000000042''"
    by (simp add: s3_object_id_def dict_get_def py_str_def py_format_012d_def Let_def
        claim_event_def demo_digest_def format_012d_def zfill_def dec42 zeros10)
  have s2: "send demo_digest quiet_cluster (fst (snd first_send)) (fst (snd (snd first_send)))
       keyed_event
       = (fst sending_send, fst (snd sending_send), fst (snd (snd sending_send)),
          snd (snd (snd sending_send)))"
    by (simp add: sending_send_def)
  have m2: "get_path (PDict keyed_event) [''fields'', ''message''] = Inr (PStr ''n'')"
    by (simp add: keyed_event_def dict_get_def)
  have x2: "es_index (fst (snd first_send)) = Some ''logs-generic-default''"
    using first_send_eval demo_shipper_eval by simp
  have d2: "map_of keyed_event ''_id'' \<noteq> None"
    by (simp add: keyed_event_def)
  have b2: "bulk_actions (fst (snd first_send)) = [snd (snd (snd first_send))]"
    "bulk_batch_size (fst (snd first_send)) = 2"
    "bulk_kwargs (fst (snd first_send)) = bulk_kwargs demo_shipper"
    "fst (snd (snd first_send)) = empty_world"
    using first_send_eval demo_shipper_eval by simp_all
  have f: "flush quiet_cluster (fst (snd first_send)) (fst (snd (snd first_send)))
       = (fst first_flush, fst (snd first_flush), snd (snd first_flush))"
    by (simp add: first_flush_def)
  have e: "fst first_flush = None"
    using first_send_eval
    by (simp add: first_flush_def flush_def es_bulk_def handle_outcome_def quiet_cluster_def)
  note t1 = send_flush_bulk_rule [where sha256_hexdigest = demo_digest and es = quiet_cluster
        and self = demo_shipper and w = empty_world and event = claim_event
        and err = "fst first_send" and self' = "fst (snd first_send)"
        and w' = "fst (snd (snd first_send))" and event' = "snd (snd (snd first_send))"
        and message = "PStr ''m''" and index = "''logs-generic-default''"
        and i = "''9f86d08188-000000000042''"
        and fself = "fst (snd first_send)" and fw = "fst (snd (snd first_send))"
        and ferr = "fst first_flush" and fself' = "fst (snd first_flush)"
        and fw' = "snd (snd first_flush)"]
  note t2 = send_flush_bulk_rule [where sha256_hexdigest = demo_digest and es = quiet_cluster
        and self = "fst (snd first_send)" and w = "fst (snd (snd first_send))"
        and event = keyed_event
        and err = "fst sending_send" and self' = "fst (snd sending_send)"
        and w' = "fst (snd (snd sending_send))" and event' = "snd (snd (snd sending_send))"
        and message = "PStr ''n''" and index = "''logs-generic-default''"
        and i = "[]"
        and fself = "fst (snd first_send)" and fw = "fst (snd (snd first_send))"
        and ferr = "fst first_flush" and fself' = "fst (snd first_flush)"
        and fw' = "snd (snd first_flush)"]
  have r1: "fst first_send = None
     \<and> bulk_actions (fst (snd first_send)) = bulk_actions demo_shipper @ [snd (snd (snd first_send))]
     \<and> fst (snd (snd first_send)) = empty_world"
    using t1 s1 m1 x1 d1 demo_shipper_eval by simp
  have r2: "bulk_requests (fst (snd (snd sending_send)))
       = bulk_requests (fst (snd (snd first_send)))
           @ [(bulk_actions (fst (snd first_send)) @ [snd (snd (snd sending_send))],
               bulk_kwargs (fst (snd first_send)))]
     \<and> bulk_actions (fst (snd sending_send))
         = (if fst sending_send = None then []
            else bulk_actions (fst (snd first_send)) @ [snd (snd (snd sending_send))])"
    using t2 s2 m2 x2 x1(2) d2 b2(1,2) by simp
  have r3: "bulk_requests (snd (snd first_flush))
       = bulk_requests (fst (snd (snd first_send)))
         @ [(bulk_actions (fst (snd first_send)), bulk_kwargs (fst (snd first_send)))]
     \<and> bulk_actions (fst (snd first_flush)) = []"
    using t1 f e b2(1) by simp
  show ?thesis
    using s1 m1 x1 d1 s2 m2 x2 d2 b2 f e r1 r2 r3 sending_send_eval demo_shipper_eval
    by (simp add: empty_world_def)
qed

text \<open>
  The claim C6 as stated fails: with \<open>batch_max_bytes=1\<close> the one buffered action (at least one
  byte) has reached the byte bound, and still no bulk request is issued and the batch is kept.
\<close>

theorem send_ignores_byte_bound_counterexample:
  "fst first_send = None
   \<and> max_chunk_bytes (bulk_kwargs (fst (snd first_send))) = 1
   \<and> length (bulk_actions (fst (snd first_send))) = 1
   \<and> bulk_batch_size (fst (snd first_send)) = 2
   \<and> bulk_requests (fst (snd (snd first_send))) = []"
  using first_send_eval demo_shipper_eval by (simp add: empty_world_def)

text \<open>
  C10, as the code has it. On a shipper whose index was never set, or is empty, \<open>send\<close> of an
  event that carries \<open>fields.message\<close> raises \<open>ValueError("Elasticsearch index cannot be
  empty")\<close>, appends nothing to the batch and issues no request, and the event has by then
  received \<open>data_stream\<close>, \<open>event\<close> and \<open>tags\<close>.
\<close>

theorem send_without_index:
  assumes "es_index self = None \<or> es_index self = Some []"
      and "get_path (PDict event) [''fields'', ''message''] = Inr message"
  shows "case send sha256_hexdigest es self w event of (err, self', w', event') \<Rightarrow>
           err = Some (ValueError ''Elasticsearch index cannot be empty'')
         \<and> bulk_actions self' = bulk_actions self
         \<and> w' = w
         \<and> map_of event' ''data_stream''
              = Some (PDict [(''type'', PStr ''logs''), (''dataset'', PStr (dataset self)),
                             (''namespace'', PStr (namespace self))])
         \<and> map_of event' ''event''
              = Some (PDict [(''dataset'', PStr (dataset self)), (''original'', message)])
         \<and> map_of event' ''tags''
              = Some (PList (map PStr ([''preserve_original_event'', ''forwarded'',
                                        replace_dot (dataset self)] @ tags self)))"
  using assms
  by (auto simp: send_def enrich_event_def Let_def ebind_eq_Inr dict_get_dict_set map_of_dict_set)

theorem send_without_index_witness:
  "(es_index unindexed_shipper = None \<or> es_index unindexed_shipper = Some [])
   \<and> get_path (PDict claim_event) [''fields'', ''message''] = Inr (PStr ''m'')
   \<and> (case send demo_digest quiet_cluster unindexed_shipper empty_world claim_event of
        (err, self', w', event') \<Rightarrow>
           err = Some (ValueError ''Elasticsearch index cannot be empty'')
         \<and> bulk_actions self' = []
         \<and> w' = empty_world
         \<and> map_of event' ''event''
              = Some (PDict [(''dataset'', PStr ''generic''), (''original'', PStr ''m'')]))"
proof -
  have i: "es_index unindexed_shipper = None \<or> es_index unindexed_shipper = Some []"
    by (simp add: demo_defs)
  have m: "get_path (PDict claim_event) [''fields'', ''message''] = Inr (PStr ''m'')"
    by (simp add: claim_event_def dict_get_def)
  have u: "bulk_actions unindexed_shipper = [] \<and> dataset unindexed_shipper = ''generic''"
    by (simp add: demo_defs)
  show ?thesis
    using send_without_index [OF i m, where sha256_hexdigest = demo_digest
        and es = quiet_cluster and w = empty_world] i m u
    by (auto split: prod.splits)
qed

text \<open>
  The claim C10 as stated fails on an event without \<open>fields\<close>: enrichment raises KeyError before
  the index is looked at.
\<close>

theorem send_without_index_counterexample:
  "fst (send demo_digest quiet_cluster unindexed_shipper empty_world []) = Some (KeyError ''fields'')
   \<and> fst (send demo_digest quiet_cluster unindexed_shipper empty_world [])
       \<noteq> Some (ValueError ''Elasticsearch index cannot be empty'')"
  by (simp add: send_def enrich_event_def dict_get_def demo_defs)

text \<open>
  C8. The same event sent twice gets the same derived \<open>_id\<close> twice in one batch. When the
  cluster reports the duplicate as a per-action error, two actions match the error's
  \<open>create._id\<close>: the assertion fails, and the replay handler is not called.
\<close>

theorem duplicate_id_assertion_fails:
  "fst second_send = Some AssertionError
   \<and> length (bulk_actions (fst (snd second_send))) = 2
   \<and> map (\<lambda>a. map_of a ''_id'') (bulk_actions (fst (snd second_send)))
       = [Some (PStr ''9f86d08188-000000000042''), Some (PStr ''9f86d08188-000000000042'')]
   \<and> replay_handler (fst (snd second_send))
   \<and> replay_calls (fst (snd (snd second_send))) = []"
  by (simp add: second_send_def send_def enrich_event_def s3_object_id_def dict_get_def
      py_str_def py_format_012d_def Let_def demo_defs es_bulk_def handle_outcome_def
      format_012d_def zfill_def dec42 zeros10)

section \<open>Properties of the line splitter\<close>

subsection \<open>The UTF-8 decoder\<close>

declare utf8_decode.simps(2) [simp del]

lemma char_of_eqI: "(of_char c :: nat) = n \<Longrightarrow> char_of n = c"
  by (metis char_of_char)

lemma base64_div: "l < 64 \<Longrightarrow> (h * 64 + l) div 64 = (h::nat)"
  by simp

lemma base64_mod: "l < 64 \<Longrightarrow> (h * 64 + l) mod 64 = (l::nat)"
  by simp

lemma decode2_arith:
  fixes b0 b1 :: nat
  assumes "194 \<le> b0" "b0 < 224" "128 \<le> b1" "b1 < 192"
  shows "192 + ((b0 - 192) * 64 + (b1 - 128)) div 64 = b0"
    and "128 + ((b0 - 192) * 64 + (b1 - 128)) mod 64 = b1"
    and "128 \<le> (b0 - 192) * 64 + (b1 - 128)" and "(b0 - 192) * 64 + (b1 - 128) < 2048"
proof -
  define h l where "h = b0 - 192" and "l = b1 - 128"
  have l: "l < 64" and h: "2 \<le> h" "h < 32" and b: "b0 = 192 + h" "b1 = 128 + l"
    using assms by (auto simp: h_def l_def)
  show "192 + ((b0 - 192) * 64 + (b1 - 128)) div 64 = b0"
    unfolding b using l by simp
  show "128 + ((b0 - 192) * 64 + (b1 - 128)) mod 64 = b1"
    unfolding b using l by simp
  show "128 \<le> (b0 - 192) * 64 + (b1 - 128)" "(b0 - 192) * 64 + (b1 - 128) < 2048"
    unfolding b using l h by simp_all
qed

lemma decode3_arith:
  fixes b0 b1 b2 :: nat
  assumes "224 \<le> b0" "b0 < 240" "128 \<le> b1" "b1 < 192" "128 \<le> b2" "b2 < 192"
  shows "224 + ((b0 - 224) * 4096 + (b1 - 128) * 64 + (b2 - 128)) div 4096 = b0"
    and "128 + ((b0 - 224) * 4096 + (b1 - 128) * 64 + (b2 - 128)) div 64 mod 64 = b1"
    and "128 + ((b0 - 224) * 4096 + (b1 - 128) * 64 + (b2 - 128)) mod 64 = b2"
    and "(b0 - 224) * 4096 + (b1 - 128) * 64 + (b2 - 128) < 65536"
proof -
  define h l m where "h = b0 - 224" and "l = b1 - 128" and "m = b2 - 128"
  have l: "l < 64" and m: "m < 64" and h: "h < 16"
    and b: "b0 = 224 + h" "b1 = 128 + l" "b2 = 128 + m"
    using assms by (auto simp: h_def l_def m_def)
  have cp: "(b0 - 224) * 4096 + (b1 - 128) * 64 + (b2 - 128) = (h * 64 + l) * 64 + m"
    unfolding b by simp
  have d64: "((h * 64 + l) * 64 + m) div 64 = h * 64 + l"
    using m by simp
  have e4096: "((h * 64 + l) * 64 + m) div 4096 = ((h * 64 + l) * 64 + m) div 64 div 64"
    by (simp add: div_mult2_eq)
  have d4096: "((h * 64 + l) * 64 + m) div 4096 = h"
    unfolding e4096 d64 using l by simp
  have r0: "224 + h = b0"
    using b by simp
  have r1: "128 + (h * 64 + l) mod 64 = b1"
    by (simp only: base64_mod [OF l] b)
  have r2: "128 + ((h * 64 + l) * 64 + m) mod 64 = b2"
    by (simp only: base64_mod [OF m] b)
  show "224 + ((b0 - 224) * 4096 + (b1 - 128) * 64 + (b2 - 128)) div 4096 = b0"
    unfolding cp d4096 by (rule r0)
  show "128 + ((b0 - 224) * 4096 + (b1 - 128) * 64 + (b2 - 128)) div 64 mod 64 = b1"
    unfolding cp d64 by (rule r1)
  show "128 + ((b0 - 224) * 4096 + (b1 - 128) * 64 + (b2 - 128)) mod 64 = b2"
    unfolding cp by (rule r2)
  show "(b0 - 224) * 4096 + (b1 - 128) * 64 + (b2 - 128) < 65536"
    unfolding cp using l m h by simp
qed

lemma decode4_arith:
  fixes b0 b1 b2 b3 :: nat
  assumes "240 \<le> b0" "b0 < 245" "128 \<le> b1" "b1 < 192" "128 \<le> b2" "b2 < 192"
    "128 \<le> b3" "b3 < 192"
  shows "240 + ((b0 - 240) * 262144 + (b1 - 128) * 4096 + (b2 - 128) * 64 + (b3 - 128))
           div 262144 = b0"
    and "128 + ((b0 - 240) * 262144 + (b1 - 128) * 4096 + (b2 - 128) * 64 + (b3 - 128))
           div 4096 mod 64 = b1"
    and "128 + ((b0 - 240) * 262144 + (b1 - 128) * 4096 + (b2 - 128) * 64 + (b3 - 128))
           div 64 mod 64 = b2"
    and "128 + ((b0 - 240) * 262144 + (b1 - 128) * 4096 + (b2 - 128) * 64 + (b3 - 128))
           mod 64 = b3"
proof -
  define h l m n where "h = b0 - 240" and "l = b1 - 128" and "m = b2 - 128" and "n = b3 - 128"
  have l: "l < 64" and m: "m < 64" and n: "n < 64"
    and b: "b0 = 240 + h" "b1 = 128 + l" "b2 = 128 + m" "b3 = 128 + n"
    using assms by (auto simp: h_def l_def m_def n_def)
  have cp: "(b0 - 240) * 262144 + (b1 - 128) * 4096 + (b2 - 128) * 64 + (b3 - 128)
              = ((h * 64 + l) * 64 + m) * 64 + n"
    unfolding b by simp
  have d64: "(((h * 64 + l) * 64 + m) * 64 + n) div 64 = (h * 64 + l) * 64 + m"
    using n by simp
  have e4096: "(((h * 64 + l) * 64 + m) * 64 + n) div 4096
          = (((h * 64 + l) * 64 + m) * 64 + n) div 64 div 64"
    by (simp add: div_mult2_eq)
  have d4096: "(((h * 64 + l) * 64 + m) * 64 + n) div 4096 = h * 64 + l"
    unfolding e4096 d64 using m by simp
  have e262144: "(((h * 64 + l) * 64 + m) * 64 + n) div 262144
          = (((h * 64 + l) * 64 + m) * 64 + n) div 4096 div 64"
    by (simp add: div_mult2_eq)
  have d262144: "(((h * 64 + l) * 64 + m) * 64 + n) div 262144 = h"
    unfolding e262144 d4096 using l by simp
  have r0: "240 + h = b0"
    using b by simp
  have r1: "128 + (h * 64 + l) mod 64 = b1"
    by (simp only: base64_mod [OF l] b)
  have r2: "128 + ((h * 64 + l) * 64 + m) mod 64 = b2"
    by (simp only: base64_mod [OF m] b)
  have r3: "128 + (((h * 64 + l) * 64 + m) * 64 + n) mod 64 = b3"
    by (simp only: base64_mod [OF n] b)
  show "240 + ((b0 - 240) * 262144 + (b1 - 128) * 4096 + (b2 - 128) * 64 + (b3 - 128))
           div 262144 = b0"
    unfolding cp d262144 by (rule r0)
  show "128 + ((b0 - 240) * 262144 + (b1 - 128) * 4096 + (b2 - 128) * 64 + (b3 - 128))
           div 4096 mod 64 = b1"
    unfolding cp d4096 by (rule r1)
  show "128 + ((b0 - 240) * 262144 + (b1 - 128) * 4096 + (b2 - 128) * 64 + (b3 - 128))
           div 64 mod 64 = b2"
    unfolding cp d64 by (rule r2)
  show "128 + ((b0 - 240) * 262144 + (b1 - 128) * 4096 + (b2 - 128) * 64 + (b3 - 128))
           mod 64 = b3"
    unfolding cp by (rule r3)
qed

text \<open>One step of the decoder.\<close>

lemma utf8_decode_step:
  assumes "utf8_decode (c # cs) = Some t"
  shows "\<exists>cp r t'. t = cp # t' \<and> utf8_decode r = Some t' \<and> c # cs = utf8_encode_char cp @ r
           \<and> (cp < 128 \<longrightarrow> utf8_encode_char cp = [char_of cp])
           \<and> (128 \<le> cp \<longrightarrow> (\<forall>x \<in> set (utf8_encode_char cp). 128 \<le> (of_char x :: nat)))
           \<and> (\<forall>y. utf8_decode (utf8_encode_char cp @ y) = map_option ((#) cp) (utf8_decode y))"
proof -
  define b0 where "b0 = (of_char c :: nat)"
  consider (one) "b0 < 128" | (two) "194 \<le> b0" "b0 < 224" | (three) "224 \<le> b0" "b0 < 240"
    | (four) "240 \<le> b0" "b0 < 245" | (bad) "128 \<le> b0" "b0 < 194" | (bad2) "245 \<le> b0"
    by linarith
  then show ?thesis
  proof cases
    case one
    then obtain t' where t': "utf8_decode cs = Some t'" "t = b0 # t'"
      using assms by (auto simp: utf8_decode.simps(2) Let_def b0_def)
    have "utf8_encode_char b0 = [c]"
      using one by (simp add: utf8_encode_char_def b0_def)
    moreover have "\<forall>y. utf8_decode (c # y) = map_option ((#) b0) (utf8_decode y)"
      using one by (simp add: utf8_decode.simps(2) Let_def b0_def)
    ultimately show ?thesis using t' one by (auto simp: b0_def)
  next
    case two
    then obtain c1 r where cs: "cs = c1 # r"
      using assms by (cases cs) (auto simp: utf8_decode.simps(2) Let_def b0_def)
    define b1 where "b1 = (of_char c1 :: nat)"
    define cp where "cp = (b0 - 192) * 64 + (b1 - 128)"
    have dec: "is_continuation b1 \<and> (\<exists>t'. utf8_decode r = Some t' \<and> t = cp # t')"
      using assms two unfolding cs
      by (auto simp: utf8_decode.simps(2) Let_def b0_def b1_def cp_def split: if_splits)
    then have b1: "128 \<le> b1" "b1 < 192" by (auto simp: is_continuation_def)
    note ar = decode2_arith [OF two b1, folded cp_def]
    have enc: "utf8_encode_char cp = [c, c1]"
      using ar by (simp add: utf8_encode_char_def char_of_eqI b0_def b1_def)
    have fwd: "\<forall>y. utf8_decode (c # c1 # y) = map_option ((#) cp) (utf8_decode y)"
      using two dec by (simp add: utf8_decode.simps(2) Let_def b0_def b1_def cp_def)
    show ?thesis
      using dec enc ar two b1 fwd by (auto simp: cs b0_def b1_def)
  next
    case three
    then obtain c1 c2 r where cs: "cs = c1 # c2 # r"
      using assms by (cases cs; cases "tl cs") (auto simp: utf8_decode.simps(2) Let_def b0_def)
    define b1 where "b1 = (of_char c1 :: nat)"
    define b2 where "b2 = (of_char c2 :: nat)"
    define cp where "cp = (b0 - 224) * 4096 + (b1 - 128) * 64 + (b2 - 128)"
    have dec: "is_continuation b1 \<and> is_continuation b2 \<and> 2048 \<le> cp
               \<and> (\<exists>t'. utf8_decode r = Some t' \<and> t = cp # t')"
      using assms three unfolding cs
      by (auto simp: utf8_decode.simps(2) Let_def b0_def b1_def b2_def cp_def split: if_splits)
    then have b1: "128 \<le> b1" "b1 < 192" and b2: "128 \<le> b2" "b2 < 192"
      by (auto simp: is_continuation_def)
    note ar = decode3_arith [OF three b1 b2, folded cp_def]
    have enc: "utf8_encode_char cp = [c, c1, c2]"
      using ar dec by (simp add: utf8_encode_char_def char_of_eqI b0_def b1_def b2_def)
    have sur: "\<not> (55296 \<le> cp \<and> cp < 57344)"
      using assms three dec unfolding cs
      by (auto simp: utf8_decode.simps(2) Let_def b0_def b1_def b2_def cp_def split: if_splits)
    have fwd: "\<forall>y. utf8_decode (c # c1 # c2 # y) = map_option ((#) cp) (utf8_decode y)"
      using three dec sur by (simp add: utf8_decode.simps(2) Let_def b0_def b1_def b2_def cp_def)
    show ?thesis
      using dec enc ar three b1 b2 fwd by (auto simp: cs b0_def b1_def b2_def)
  next
    case four
    then obtain c1 c2 c3 r where cs: "cs = c1 # c2 # c3 # r"
      using assms
      by (cases cs; cases "tl cs"; cases "tl (tl cs)")
         (auto simp: utf8_decode.simps(2) Let_def b0_def)
    define b1 where "b1 = (of_char c1 :: nat)"
    define b2 where "b2 = (of_char c2 :: nat)"
    define b3 where "b3 = (of_char c3 :: nat)"
    define cp where "cp = (b0 - 240) * 262144 + (b1 - 128) * 4096 + (b2 - 128) * 64 + (b3 - 128)"
    have dec: "is_continuation b1 \<and> is_continuation b2 \<and> is_continuation b3 \<and> 65536 \<le> cp
               \<and> (\<exists>t'. utf8_decode r = Some t' \<and> t = cp # t')"
      using assms four unfolding cs
      by (auto simp: utf8_decode.simps(2) Let_def b0_def b1_def b2_def b3_def cp_def
          split: if_splits)
    then have b1: "128 \<le> b1" "b1 < 192" and b2: "128 \<le> b2" "b2 < 192"
      and b3: "128 \<le> b3" "b3 < 192"
      by (auto simp: is_continuation_def)
    note ar = decode4_arith [OF four b1 b2 b3, folded cp_def]
    have enc: "utf8_encode_char cp = [c, c1, c2, c3]"
      using ar dec by (simp add: utf8_encode_char_def char_of_eqI b0_def b1_def b2_def b3_def)
    have top: "cp < 1114112"
      using assms four dec unfolding cs
      by (auto simp: utf8_decode.simps(2) Let_def b0_def b1_def b2_def b3_def cp_def
          split: if_splits)
    have fwd: "\<forall>y. utf8_decode (c # c1 # c2 # c3 # y) = map_option ((#) cp) (utf8_decode y)"
      using four dec top
      by (simp add: utf8_decode.simps(2) Let_def b0_def b1_def b2_def b3_def cp_def)
    show ?thesis
      using dec enc ar four b1 b2 b3 fwd by (auto simp: cs b0_def b1_def b2_def b3_def)
  next
    case bad
    then show ?thesis
      using assms by (auto simp: utf8_decode.simps(2) Let_def b0_def)
  next
    case bad2
    then show ?thesis
      using assms by (auto simp: utf8_decode.simps(2) Let_def b0_def)
  qed
qed

lemma utf8_encode_char_nonempty: "utf8_encode_char cp \<noteq> []"
  by (simp add: utf8_encode_char_def)

lemma utf8_encode_simps [simp]:
  "utf8_encode [] = []"
  "utf8_encode (cp # t) = utf8_encode_char cp @ utf8_encode t"
  "utf8_encode (s @ t) = utf8_encode s @ utf8_encode t"
  by (simp_all add: utf8_encode_def)

lemma good_text_simps [simp]:
  "good_text []"
  "good_text (cp # t) \<longleftrightarrow> byte_ok cp \<and> decodable cp \<and> good_text t"
  "good_text (s @ t) \<longleftrightarrow> good_text s \<and> good_text t"
  by (auto simp: good_text_def)

lemma utf8_decode_sound:
  "utf8_decode b = Some t \<Longrightarrow> utf8_encode t = b \<and> good_text t"
proof (induction "length b" arbitrary: b t rule: less_induct)
  case less
  show ?case
  proof (cases b)
    case Nil
    then show ?thesis using less.prems by simp
  next
    case (Cons c cs)
    from utf8_decode_step [OF less.prems [unfolded Cons]]
    obtain cp r t' where st: "t = cp # t'" "utf8_decode r = Some t'"
      "c # cs = utf8_encode_char cp @ r"
      "128 \<le> cp \<longrightarrow> (\<forall>x \<in> set (utf8_encode_char cp). 128 \<le> (of_char x :: nat))"
      "\<forall>y. utf8_decode (utf8_encode_char cp @ y) = map_option ((#) cp) (utf8_decode y)"
      by blast
    have "length r < length b"
      using st(3) utf8_encode_char_nonempty [of cp] unfolding Cons
      by (metis length_append length_greater_0_conv less_add_same_cancel2)
    from less.hyps [OF this st(2)]
    have ih: "utf8_encode t' = r" "good_text t'"
      by blast+
    show ?thesis
      using st ih unfolding Cons by (simp add: byte_ok_def decodable_def)
  qed
qed

lemma utf8_decode_encode_append:
  "good_text k \<Longrightarrow> utf8_decode (utf8_encode k @ y) = map_option ((@) k) (utf8_decode y)"
proof (induction k)
  case Nil
  show ?case by (simp add: option.map_ident)
next
  case (Cons cp k)
  then show ?case
    by (simp add: decodable_def option.map_comp comp_def)
qed

lemma utf8_decode_encode: "good_text k \<Longrightarrow> utf8_decode (utf8_encode k) = Some k"
  using utf8_decode_encode_append [of k "[]"] by simp

lemma is_linebreak_10 [simp]: "is_linebreak 10"
  by (simp add: is_linebreak_def)

lemma clean_simps [simp]:
  "clean []"
  "clean (c # l) \<longleftrightarrow> \<not> is_linebreak c \<and> clean l"
  "clean (l @ l') \<longleftrightarrow> clean l \<and> clean l'"
  by (auto simp: clean_def)

lemma lf_only_simps [simp]:
  "lf_only []"
  "lf_only (c # l) \<longleftrightarrow> (is_linebreak c \<longrightarrow> c = 10) \<and> lf_only l"
  "lf_only (l @ l') \<longleftrightarrow> lf_only l \<and> lf_only l'"
  by (auto simp: lf_only_def)

lemma clean_lf_only: "clean l \<Longrightarrow> lf_only l"
  by (auto simp: clean_def lf_only_def)

lemma lf_join_simps [simp]:
  "lf_join [] k = k"
  "lf_join (l # E) k = l @ 10 # lf_join E k"
  by (simp_all add: lf_join_def)

lemma lf_join_append: "lf_join (E @ E') k = lf_join E (lf_join E' k)"
  by (induction E) simp_all

lemma splitlines_clean_lf: "clean l \<Longrightarrow> splitlines (l @ 10 # rest) = l # splitlines rest"
  by (induction l) simp_all

lemma splitlines_clean: "clean l \<Longrightarrow> l \<noteq> [] \<Longrightarrow> splitlines l = [l]"
proof (induction l)
  case Nil
  then show ?case by simp
next
  case (Cons c l)
  then show ?case by (cases "l = []") simp_all
qed

lemma splitlines_lf_join:
  "\<forall>l \<in> set E. clean l \<Longrightarrow> clean r \<Longrightarrow>
     splitlines (lf_join E r) = E @ (if r = [] then [] else [r])"
  by (induction E) (simp_all add: splitlines_clean_lf splitlines_clean)

lemma lf_only_decompose:
  "lf_only t \<Longrightarrow> \<exists>E r. t = lf_join E r \<and> (\<forall>l \<in> set E. clean l) \<and> clean r"
proof (induction t)
  case Nil
  have "[] = lf_join [] [] \<and> (\<forall>l \<in> set ([]::nat list list). clean l) \<and> clean []" by simp
  then show ?case by blast
next
  case (Cons c t)
  then obtain E r where d: "t = lf_join E r" "\<forall>l \<in> set E. clean l" "clean r"
    by auto
  show ?case
  proof (cases "c = 10")
    case True
    then have "c # t = lf_join ([] # E) r \<and> (\<forall>l \<in> set ([] # E). clean l) \<and> clean r"
      using d by simp
    then show ?thesis by blast
  next
    case False
    then have nb: "\<not> is_linebreak c" using Cons.prems by simp
    show ?thesis
    proof (cases E)
      case Nil
      then have "c # t = lf_join [] (c # r) \<and> (\<forall>l \<in> set ([]::nat list list). clean l) \<and> clean (c # r)"
        using d nb by simp
      then show ?thesis by blast
    next
      case (Cons l E')
      then have "c # t = lf_join ((c # l) # E') r \<and> (\<forall>l \<in> set ((c # l) # E'). clean l) \<and> clean r"
        using d nb by simp
      then show ?thesis by blast
    qed
  qed
qed

text \<open>The lines of a text whose only boundary is LF, and the text rebuilt from them.\<close>

lemma splitlines_structure:
  assumes "lf_only t" "t \<noteq> []"
  shows "splitlines t \<noteq> []"
    and "\<forall>l \<in> set (splitlines t). clean l"
    and "t = lf_join (butlast (splitlines t))
               (last (splitlines t) @ (if last t = 10 then [10] else []))"
proof -
  obtain E r where d: "t = lf_join E r" "\<forall>l \<in> set E. clean l" "clean r"
    using lf_only_decompose [OF assms(1)] by blast
  have sp: "splitlines t = E @ (if r = [] then [] else [r])"
    unfolding d(1) using d(2,3) by (rule splitlines_lf_join)
  show "splitlines t \<noteq> []"
    using sp d(1) assms(2) by (cases E) auto
  show "\<forall>l \<in> set (splitlines t). clean l"
    using sp d(2,3) by auto
  show "t = lf_join (butlast (splitlines t))
               (last (splitlines t) @ (if last t = 10 then [10] else []))"
  proof (cases "r = []")
    case True
    then have E: "E \<noteq> []" using d(1) assms(2) by auto
    then have t: "t = lf_join (butlast E) (last E @ [10])"
      using d(1) True lf_join_append [of "butlast E" "[last E]" "[]"] by simp
    have "last t = 10" using t by (simp add: lf_join_def)
    then show ?thesis using sp True t E by simp
  next
    case False
    then have "last t = last r" using d(1) by (simp add: lf_join_def)
    moreover have "last r \<in> set r" using False by simp
    then have "\<not> is_linebreak (last r)" using d(3) by (simp add: clean_def)
    then have "last r \<noteq> 10" by auto
    moreover note this
    ultimately show ?thesis using sp False d(1) by simp
  qed
qed

subsection \<open>Offsets of by_lines, for every input\<close>

lemma records_span_append [simp]: "records_span (xs @ ys) = records_span xs + records_span ys"
  by (induction xs) auto

lemma chained_append:
  "chained start (xs @ ys) \<longleftrightarrow> chained start xs \<and> chained (start + records_span xs) ys"
  by (induction xs arbitrary: start) (auto simp: algebra_simps)

lemma by_lines_yield_chained:
  "chained eo (fst (by_lines_yield E eo nl))
   \<and> snd (by_lines_yield E eo nl) = eo + records_span (fst (by_lines_yield E eo nl))"
proof (induction E arbitrary: eo)
  case Nil
  then show ?case by simp
next
  case (Cons l E)
  obtain r f where y:
    "by_lines_yield E (eo + int (length (utf8_encode l)) + int (length nl)) nl = (r, f)"
    by fastforce
  show ?case
    using Cons [of "eo + int (length (utf8_encode l)) + int (length nl)"]
    by (simp add: Let_def y)
qed

lemma by_lines_chunk_chained:
  assumes "by_lines_chunk (eo, u) data = Inr (recs, (eo', u'))"
  shows "chained eo recs \<and> eo' = eo + records_span recs"
proof -
  obtain t where t: "utf8_decode (u @ data) = Some t"
    using assms by (auto simp: by_lines_chunk_def Let_def split: option.splits)
  show ?thesis
  proof (cases "splitlines t = []")
    case True
    then show ?thesis using assms t by (simp add: by_lines_chunk_def Let_def)
  next
    case False
    define nl where "nl = (if bytes_find (u @ data) CRLF > - 1 then CRLF
                           else if bytes_find (u @ data) LF > - 1 then LF else [])"
    have "by_lines_yield (butlast (splitlines t)) eo nl = (recs, eo')"
      using assms t False
      by (auto simp: by_lines_chunk_def Let_def nl_def split: prod.splits)
    then show ?thesis
      using by_lines_yield_chained [of eo "butlast (splitlines t)" nl] by simp
  qed
qed

lemma by_lines_loop_chained:
  "by_lines_loop (eo, u) chunks = (recs, res) \<Longrightarrow>
     chained eo recs \<and> (\<forall>eo' u'. res = Inr (eo', u') \<longrightarrow> eo' = eo + records_span recs)"
proof (induction chunks arbitrary: eo u recs res)
  case Nil
  then show ?case by auto
next
  case (Cons data chunks)
  show ?case
  proof (cases "by_lines_chunk (eo, u) data")
    case (Inl e)
    then show ?thesis using Cons.prems by auto
  next
    case (Inr p)
    obtain r1 eo1 u1 where p: "p = (r1, (eo1, u1))" by (cases p) auto
    obtain r2 res2 where l2: "by_lines_loop (eo1, u1) chunks = (r2, res2)" by fastforce
    have c1: "chained eo r1" "eo1 = eo + records_span r1"
      using by_lines_chunk_chained [OF Inr [unfolded p]] by auto
    have c2: "chained eo1 r2" "\<forall>eo' u'. res2 = Inr (eo', u') \<longrightarrow> eo' = eo1 + records_span r2"
      using Cons.IH [OF l2] by auto
    have "recs = r1 @ r2" "res = res2"
      using Cons.prems Inr p l2 by auto
    then show ?thesis
      using c1 c2 by (auto simp: chained_append)
  qed
qed

lemma by_lines_tail_chained: "chained eo (by_lines_tail (eo, u))"
  by (simp add: by_lines_tail_def Let_def)

lemma by_lines_chained: "chained range_start (fst (by_lines range_start upstream))"
proof -
  obtain recs res where l: "by_lines_loop (range_start, []) (fst upstream) = (recs, res)"
    by fastforce
  note c = by_lines_loop_chained [OF l]
  show ?thesis
  proof (cases res)
    case (Inl e)
    then show ?thesis using l c by (simp add: by_lines_def)
  next
    case (Inr st)
    obtain eo' u' where st: "st = (eo', u')" by (cases st) auto
    show ?thesis
      using l c Inr st by_lines_tail_chained [of eo' u']
      by (auto simp: by_lines_def chained_append split: option.splits)
  qed
qed

lemma chained_span:
  "chained start rs \<Longrightarrow>
     records_span rs = (if rs = [] then 0 else fst (snd (snd (last rs))) - start)"
  by (induction rs arbitrary: start) (auto split: if_splits)

subsection \<open>Bytes of a decoded text\<close>

lemma of_char_char_of_nat: "n < 256 \<Longrightarrow> (of_char (char_of (n::nat)) :: nat) = n"
  by (simp add: of_char_of)

lemma char_of_inj:
  assumes "n < 256" "m < 256"
  shows "char_of (n::nat) = (char_of m :: char) \<longleftrightarrow> n = m"
proof
  assume "char_of n = (char_of m :: char)"
  then have "(of_char (char_of n :: char) :: nat) = of_char (char_of m :: char)"
    by simp
  then show "n = m"
    using assms by (simp only: of_char_char_of_nat)
qed simp

lemma ascii_in_encode_char:
  assumes "n < 128" "byte_ok cp"
  shows "char_of n \<in> set (utf8_encode_char cp) \<longleftrightarrow> cp = n"
proof (cases "cp < 128")
  case True
  have "char_of n = (char_of cp :: char) \<longleftrightarrow> cp = n"
    using True assms(1) char_of_inj [of n cp] by auto
  then show ?thesis using True by (auto simp: utf8_encode_char_def)
next
  case False
  then have "\<forall>x \<in> set (utf8_encode_char cp). 128 \<le> (of_char x :: nat)"
    using assms(2) by (simp add: byte_ok_def)
  moreover have "(of_char (char_of n :: char) :: nat) < 128"
    using assms(1) of_char_char_of_nat [of n] by simp
  ultimately show ?thesis using False assms(1) by fastforce
qed

lemma ascii_in_encode:
  "n < 128 \<Longrightarrow> good_text t \<Longrightarrow> char_of n \<in> set (utf8_encode t) \<longleftrightarrow> n \<in> set t"
  by (induction t) (auto simp: ascii_in_encode_char)

lemma last_encode:
  assumes "n < 128" "good_text t" "t \<noteq> []"
  shows "last (utf8_encode t) = char_of n \<longleftrightarrow> last t = n"
proof -
  have e: "utf8_encode t = utf8_encode (butlast t) @ utf8_encode_char (last t)"
    using assms(3) utf8_encode_simps(3) [of "butlast t" "[last t]"] by simp
  have ok: "byte_ok (last t)" using assms(2,3) by (simp add: good_text_def)
  have l: "last (utf8_encode t) = last (utf8_encode_char (last t))"
    unfolding e using utf8_encode_char_nonempty by simp
  show ?thesis
  proof (cases "last t < 128")
    case True
    then have "utf8_encode_char (last t) = [char_of (last t)]"
      by (simp add: utf8_encode_char_def)
    then show ?thesis
      using l ascii_in_encode_char [OF assms(1) ok] by auto
  next
    case False
    have "last (utf8_encode_char (last t)) \<in> set (utf8_encode_char (last t))"
      using utf8_encode_char_nonempty by simp
    then have "128 \<le> (of_char (last (utf8_encode_char (last t))) :: nat)"
      using ok False by (simp add: byte_ok_def)
    moreover have "(of_char (char_of n :: char) :: nat) < 128"
      using assms(1) of_char_char_of_nat [of n] by simp
    ultimately show ?thesis using l False assms(1) by auto
  qed
qed

lemma char_of_10: "char_of (10::nat) = CHR 0x0A"
  by (rule char_of_eqI) simp

lemma char_of_13: "char_of (13::nat) = CHR 0x0D"
  by (rule char_of_eqI) simp

subsection \<open>find and endswith\<close>

lemma bytes_find_from_absent:
  "sub \<noteq> [] \<Longrightarrow> hd sub \<notin> set b \<Longrightarrow> bytes_find_from i b sub = - 1"
  by (induction b arbitrary: i) (auto simp: startswith_def neq_Nil_conv)

lemma bytes_find_from_present:
  "x \<in> set b \<Longrightarrow> 0 \<le> i \<Longrightarrow> i \<le> bytes_find_from i b [x]"
proof (induction b arbitrary: i)
  case Nil
  then show ?case by simp
next
  case (Cons c b)
  show ?case
  proof (cases "c = x")
    case True
    then show ?thesis by (simp add: startswith_def)
  next
    case False
    then have "i + 1 \<le> bytes_find_from (i + 1) b [x]"
      using Cons by simp
    then show ?thesis using False by (simp add: startswith_def)
  qed
qed

lemma bytes_find_single: "bytes_find b [x] > - 1 \<longleftrightarrow> x \<in> set b"
proof (cases "x \<in> set b")
  case True
  then show ?thesis
    using bytes_find_from_present [of x b 0] by (simp add: bytes_find_def)
next
  case False
  then show ?thesis
    using bytes_find_from_absent [of "[x]" b 0] by (simp add: bytes_find_def)
qed

lemma bytes_find_absent: "sub \<noteq> [] \<Longrightarrow> hd sub \<notin> set b \<Longrightarrow> \<not> bytes_find b sub > - 1"
  by (simp add: bytes_find_def bytes_find_from_absent)

lemma endswith_Nil [simp]: "endswith b []"
  by (simp add: endswith_def)

lemma endswith_single: "endswith b [x] \<longleftrightarrow> b \<noteq> [] \<and> last b = x"
proof (cases b rule: rev_cases)
  case Nil
  then show ?thesis by (simp add: endswith_def)
next
  case (snoc ys y)
  then show ?thesis by (auto simp: endswith_def)
qed

lemma endswith_in_set:
  assumes "endswith b (x # xs)"
  shows "x \<in> set b"
proof -
  have "drop (length b - length (x # xs)) b = x # xs"
    using assms by (simp add: endswith_def)
  then have "x \<in> set (drop (length b - length (x # xs)) b)"
    by simp
  then show ?thesis by (rule in_set_dropD)
qed

subsection \<open>One chunk of a text whose only line boundary is LF\<close>

lemma not_linebreak_13: "lf_only t \<Longrightarrow> 13 \<notin> set t"
  by (auto simp: lf_only_def is_linebreak_def)

lemma lf_only_clean: "lf_only t \<Longrightarrow> 10 \<notin> set t \<Longrightarrow> clean t"
  by (auto simp: lf_only_def clean_def)

lemma by_lines_yield_Nil: "by_lines_yield [] eo nl = ([], eo)"
  by simp

lemma by_lines_chunk_lf:
  assumes dec: "utf8_decode (u @ data) = Some t" and lf: "lf_only t" and ne: "t \<noteq> []"
  shows "by_lines_chunk (eo, u) data =
           Inr (fst (by_lines_yield (butlast (splitlines t)) eo LF),
                (snd (by_lines_yield (butlast (splitlines t)) eo LF),
                 utf8_encode (last (splitlines t)) @ (if last t = 10 then LF else [])))"
proof -
  note snd = utf8_decode_sound [OF dec]
  have b: "u @ data = utf8_encode t" and good: "good_text t"
    using snd by auto
  have sl: "splitlines t \<noteq> []"
    using splitlines_structure(1) [OF lf ne] .
  have "CHR 0x0D \<notin> set (utf8_encode t)"
    using ascii_in_encode [of 13 t] good not_linebreak_13 [OF lf] by (simp add: char_of_13)
  then have nocr: "\<not> bytes_find (u @ data) CRLF > - 1"
    unfolding b by (intro bytes_find_absent) (simp_all add: CRLF_def)
  have haslf: "bytes_find (u @ data) LF > - 1 \<longleftrightarrow> 10 \<in> set t"
    unfolding b LF_def bytes_find_single
    using ascii_in_encode [of 10 t] good by (simp add: char_of_10)
  have "utf8_encode t \<noteq> []"
    using ne utf8_encode_char_nonempty by (cases t) simp_all
  then have endlf: "endswith (u @ data) LF \<longleftrightarrow> last t = 10"
    unfolding b LF_def endswith_single
    using last_encode [of 10 t] good ne by (simp add: char_of_10)
  show ?thesis
  proof (cases "10 \<in> set t")
    case True
    obtain recs eo' where y: "by_lines_yield (butlast (splitlines t)) eo LF = (recs, eo')"
      by fastforce
    show ?thesis
      using dec sl nocr haslf True endlf y
      by (simp add: by_lines_chunk_def Let_def)
  next
    case False
    then have "clean t" using lf by (rule lf_only_clean [rotated])
    then have st: "splitlines t = [t]" using ne by (rule splitlines_clean)
    have "last t \<in> set t" using ne by simp
    then have "last t \<noteq> 10" using False by metis
    then show ?thesis
      using dec nocr haslf False st
      by (simp add: by_lines_chunk_def Let_def)
  qed
qed

text \<open>What the chunk leaves in the buffer, and how many bytes it accounts for.\<close>

lemma utf8_encode_lf_join:
  "utf8_encode (lf_join E k) = concat (map (\<lambda>l. utf8_encode l @ LF) E) @ utf8_encode k"
  by (induction E) (simp_all add: utf8_encode_char_def LF_def char_of_10)

lemma by_lines_yield_span:
  "records_span (fst (by_lines_yield E eo LF))
     = int (length (concat (map (\<lambda>l. utf8_encode l @ LF) E)))"
proof (induction E arbitrary: eo)
  case Nil
  then show ?case by simp
next
  case (Cons l E)
  obtain r f where y:
    "by_lines_yield E (eo + int (length (utf8_encode l)) + int (length LF)) LF = (r, f)"
    by fastforce
  show ?case
    using Cons [of "eo + int (length (utf8_encode l)) + int (length LF)"]
    by (simp add: Let_def y)
qed

lemma good_text_lf_join:
  "good_text (lf_join E k) \<Longrightarrow> good_text k \<and> (\<forall>l \<in> set E. good_text l)"
  by (induction E) auto

lemma by_lines_chunk_lf_state:
  assumes dec: "utf8_decode (u @ data) = Some t" and lf: "lf_only t"
  shows "\<exists>recs k. by_lines_chunk (eo, u) data
                     = Inr (recs, (eo + records_span recs, utf8_encode k))
           \<and> good_text k \<and> tail_ok k
           \<and> records_span recs + int (length (utf8_encode k)) = int (length (u @ data))"
proof (cases "t = []")
  case True
  then have "u @ data = []" using utf8_decode_sound [OF dec] by simp
  then have "by_lines_chunk (eo, u) data = Inr ([], (eo + records_span [], utf8_encode []))
      \<and> good_text [] \<and> tail_ok []
      \<and> records_span [] + int (length (utf8_encode [])) = int (length (u @ data))"
    by (simp add: by_lines_chunk_def tail_ok_def)
  then show ?thesis by blast
next
  case False
  define E where "E = butlast (splitlines t)"
  define k where "k = last (splitlines t) @ (if last t = 10 then [10] else [])"
  define recs where "recs = fst (by_lines_yield E eo LF)"
  note st = splitlines_structure [OF lf False]
  have t: "t = lf_join E k" using st(3) by (simp add: E_def k_def)
  have good: "good_text t" and b: "u @ data = utf8_encode t"
    using utf8_decode_sound [OF dec] by auto
  have gk: "good_text k" using good good_text_lf_join [of E k] t by simp
  have "clean (last (splitlines t))" using st(1,2) by simp
  then have tk: "tail_ok k" by (auto simp: tail_ok_def k_def)
  have ek: "utf8_encode k = utf8_encode (last (splitlines t)) @ (if last t = 10 then LF else [])"
    by (simp add: k_def utf8_encode_char_def LF_def char_of_10)
  have ch: "by_lines_chunk (eo, u) data = Inr (recs, (eo + records_span recs, utf8_encode k))"
    using by_lines_chunk_lf [OF dec lf False, of eo] by_lines_yield_chained [of eo E LF]
    by (simp add: E_def recs_def ek)
  have "int (length (u @ data)) = records_span recs + int (length (utf8_encode k))"
    unfolding b recs_def by_lines_yield_span
    by (subst t) (simp add: utf8_encode_lf_join)
  then show ?thesis using ch gk tk by auto
qed

lemma lf_text_iff: "lf_text b \<longleftrightarrow> (\<exists>t. utf8_decode b = Some t \<and> lf_only t)"
  by (auto simp: lf_text_def lf_only_def list_all_iff split: option.splits)

lemma tail_ok_lf_only: "tail_ok k \<Longrightarrow> lf_only k"
  by (auto simp: tail_ok_def dest: clean_lf_only)

lemma by_lines_tail_clean:
  assumes "good_text l" "clean l"
  shows "by_lines_tail (eo, utf8_encode l)
           = (if l = [] then []
              else [(utf8_encode l, eo, eo + int (length (utf8_encode l)), [], None)])"
    and "by_lines_tail (eo, utf8_encode l @ LF)
           = [(utf8_encode l, eo, eo + int (length (utf8_encode l)) + 1, LF, None)]"
proof -
  have no13: "CHR 0x0D \<notin> set (utf8_encode l)" and no10: "CHR 0x0A \<notin> set (utf8_encode l)"
    using ascii_in_encode [of 13 l] ascii_in_encode [of 10 l] assms
    by (auto simp: char_of_13 char_of_10 clean_def is_linebreak_def)
  have ncr: "\<not> endswith (utf8_encode l) CRLF"
    using no13 endswith_in_set [of "utf8_encode l" "CHR 0x0D" "[CHR 0x0A]"]
    by (auto simp: CRLF_def)
  have nlf: "\<not> endswith (utf8_encode l) LF"
    using no10 endswith_in_set [of "utf8_encode l" "CHR 0x0A" "[]"]
    by (auto simp: LF_def)
  have e: "utf8_encode l = [] \<longleftrightarrow> l = []"
    using utf8_encode_char_nonempty by (cases l) simp_all
  show "by_lines_tail (eo, utf8_encode l)
           = (if l = [] then []
              else [(utf8_encode l, eo, eo + int (length (utf8_encode l)), [], None)])"
    using ncr nlf e by (simp add: by_lines_tail_def Let_def py_rstrip_def)
  have ncr': "\<not> endswith (utf8_encode l @ LF) CRLF"
    using no13 endswith_in_set [of "utf8_encode l @ LF" "CHR 0x0D" "[CHR 0x0A]"]
    by (auto simp: CRLF_def LF_def)
  have lf': "endswith (utf8_encode l @ LF) LF"
    by (simp add: endswith_def)
  have "dropWhile (\<lambda>c. c = CHR 0x0A) (rev (utf8_encode l)) = rev (utf8_encode l)"
    using no10 by (cases "utf8_encode l" rule: rev_cases) auto
  then have rs: "py_rstrip LF (utf8_encode l @ LF) = utf8_encode l"
    by (simp add: py_rstrip_def LF_def)
  show "by_lines_tail (eo, utf8_encode l @ LF)
           = [(utf8_encode l, eo, eo + int (length (utf8_encode l)) + 1, LF, None)]"
    using ncr' lf' rs by (simp add: by_lines_tail_def Let_def) (simp add: LF_def)
qed

lemma by_lines_tail_span:
  assumes "good_text k" "tail_ok k"
  shows "records_span (by_lines_tail (eo, utf8_encode k)) = int (length (utf8_encode k))"
proof -
  obtain l where l: "clean l" "k = l \<or> k = l @ [10]"
    using assms(2) by (auto simp: tail_ok_def)
  have gl: "good_text l" using assms(1) l(2) by auto
  have e: "utf8_encode (l @ [10]) = utf8_encode l @ LF"
    by (simp add: utf8_encode_char_def LF_def char_of_10)
  show ?thesis
    using l(2) by_lines_tail_clean [OF gl l(1), of eo] e
    by (auto simp: LF_def)
qed

lemma by_lines_loop_lf:
  assumes "good_text k" "tail_ok k" "\<forall>d \<in> set chunks. lf_text d"
  shows "\<exists>recs k'. by_lines_loop (eo, utf8_encode k) chunks
                      = (recs, Inr (eo + records_span recs, utf8_encode k'))
           \<and> good_text k' \<and> tail_ok k'
           \<and> records_span recs + int (length (utf8_encode k'))
               = int (length (utf8_encode k)) + int (length (concat chunks))"
  using assms
proof (induction chunks arbitrary: eo k)
  case Nil
  have "by_lines_loop (eo, utf8_encode k) [] = ([], Inr (eo + records_span [], utf8_encode k))
        \<and> good_text k \<and> tail_ok k
        \<and> records_span [] + int (length (utf8_encode k))
            = int (length (utf8_encode k)) + int (length (concat ([]::bytes list)))"
    using Nil by simp
  then show ?case by blast
next
  case (Cons d chunks)
  obtain td where td: "utf8_decode d = Some td" "lf_only td"
    using Cons.prems(3) by (auto simp: lf_text_iff)
  have dec: "utf8_decode (utf8_encode k @ d) = Some (k @ td)"
    using utf8_decode_encode_append [OF Cons.prems(1), of d] td(1) by simp
  have lf: "lf_only (k @ td)"
    using td(2) tail_ok_lf_only [OF Cons.prems(2)] by simp
  obtain r1 k1 where c1:
    "by_lines_chunk (eo, utf8_encode k) d = Inr (r1, (eo + records_span r1, utf8_encode k1))"
    "good_text k1" "tail_ok k1"
    "records_span r1 + int (length (utf8_encode k1)) = int (length (utf8_encode k @ d))"
    using by_lines_chunk_lf_state [OF dec lf, of eo] by blast
  have "\<forall>d \<in> set chunks. lf_text d" using Cons.prems(3) by simp
  from Cons.IH [OF c1(2,3) this, of "eo + records_span r1"]
  obtain r2 k2 where c2:
    "by_lines_loop (eo + records_span r1, utf8_encode k1) chunks
       = (r2, Inr (eo + records_span r1 + records_span r2, utf8_encode k2))"
    "good_text k2" "tail_ok k2"
    "records_span r2 + int (length (utf8_encode k2))
       = int (length (utf8_encode k1)) + int (length (concat chunks))"
    by blast
  have "by_lines_loop (eo, utf8_encode k) (d # chunks)
          = (r1 @ r2, Inr (eo + records_span (r1 @ r2), utf8_encode k2))
        \<and> good_text k2 \<and> tail_ok k2
        \<and> records_span (r1 @ r2) + int (length (utf8_encode k2))
            = int (length (utf8_encode k)) + int (length (concat (d # chunks)))"
    using c1 c2 by (simp add: algebra_simps)
  then show ?case by blast
qed

lemma by_lines_lf_total:
  assumes "snd upstream = None" "\<forall>d \<in> set (fst upstream). lf_text d"
  shows "snd (by_lines range_start upstream) = None
         \<and> records_span (fst (by_lines range_start upstream))
             = int (length (concat (fst upstream)))"
proof -
  have t0: "tail_ok []" by (auto simp: tail_ok_def)
  obtain recs k' where l:
    "by_lines_loop (range_start, utf8_encode []) (fst upstream)
       = (recs, Inr (range_start + records_span recs, utf8_encode k'))"
    "good_text k'" "tail_ok k'"
    "records_span recs + int (length (utf8_encode k'))
       = int (length (utf8_encode [])) + int (length (concat (fst upstream)))"
    using by_lines_loop_lf [OF _ t0 assms(2), of range_start] by auto
  show ?thesis
    using l assms(1) by_lines_tail_span [OF l(2,3), of "range_start + records_span recs"]
    by (simp add: by_lines_def)
qed

lemma char_of_nat_eq: "n < 256 \<Longrightarrow> char_of (n::nat) = c \<longleftrightarrow> of_char c = n"
  using of_char_char_of_nat [of n] char_of_eqI [of c n] by auto

lemma by_lines_mixed:
  "by_lines 0 ([mixed_chunk], None)
     = ([(''a'', 0, 3, CRLF, None), (''bb'', 3, 7, CRLF, None), (''ccc'', 7, 10, [], None)], None)"
  by (simp add: mixed_chunk_def by_lines_def by_lines_chunk_def by_lines_tail_def Let_def
      is_linebreak_def bytes_find_def startswith_def endswith_def CRLF_def LF_def utf8_encode_def
      utf8_encode_char_def py_rstrip_def utf8_decode.simps char_of_nat_eq)

text \<open>
  C1. On \<open>b"a\nbb\r\nccc"\<close> the code diverges from the claim. The splitter settles on one
  newline for the whole buffer, \<open>\r\n\<close> as soon as it occurs anywhere in it, and charges its
  length to every line: it yields \<open>("a", 0, 3, "\r\n")\<close>, \<open>("bb", 3, 7, "\r\n")\<close> and
  \<open>("ccc", 7, 10, "")\<close>, and the stages above it, with \<open>json_content_type=disabled\<close> and no
  multiline processor, pass the three records on. These are not the records \<open>("a", 0, 2,
  "\n")\<close>, \<open>("bb", 2, 6, "\r\n")\<close>, \<open>("ccc", 6, 9, "")\<close>: the first record does not carry
  the terminator that follows its line, and the last offset lies beyond the 9 bytes of the
  input.
\<close>

theorem by_lines_mixed_newlines_divergence:
  "by_lines 0 ([mixed_chunk], None)
     = ([(''a'', 0, 3, CRLF, None), (''bb'', 3, 7, CRLF, None), (''ccc'', 7, 10, [], None)], None)
   \<and> json_collector disabled_storage json_parser 0
        (multi_line disabled_storage 0 (by_lines 0 ([mixed_chunk], None)))
     = ([(''a'', 0, 3, CRLF, None), (''bb'', 3, 7, CRLF, None), (''ccc'', 7, 10, [], None)], None)
   \<and> by_lines 0 ([mixed_chunk], None)
     \<noteq> ([(''a'', 0, 2, LF, None), (''bb'', 2, 6, CRLF, None), (''ccc'', 6, 9, [], None)], None)
   \<and> int (length mixed_chunk) = 9"
  by (simp add: by_lines_mixed json_collector_def json_collector_run_def multi_line_def
      disabled_storage_def)
    (simp add: mixed_chunk_def CRLF_def LF_def)

text \<open>
  C2. For every input the records of \<open>by_lines\<close> are chained from \<open>range_start\<close>, each
  ending \<open>len(payload) + len(newline)\<close> after its start. The sum of these lengths is not
  always the length of the stream: on \<open>b"a\nbb\r\nccc"\<close> the records account for 10 bytes of
  a stream of 9, by the one newline that the splitter charges to every line of a buffer.
\<close>

theorem by_lines_span_divergence:
  "chained range_start (fst (by_lines range_start upstream))
   \<and> chained 0 (fst (by_lines 0 ([mixed_chunk], None)))
   \<and> records_span (fst (by_lines 0 ([mixed_chunk], None))) = 10
   \<and> int (length (concat [mixed_chunk])) = 9"
proof -
  have s: "records_span (fst (by_lines 0 ([mixed_chunk], None))) = 10"
    by (simp add: by_lines_mixed) (simp add: CRLF_def)
  have l: "int (length (concat [mixed_chunk])) = 9"
    by (simp add: mixed_chunk_def CRLF_def LF_def)
  show ?thesis
    using by_lines_chained [of range_start upstream] by_lines_chained [of 0 "([mixed_chunk], None)"]
      s l
    by blast
qed

section \<open>Properties of the JSON collector\<close>

lemma by_lines_yield_snoc:
  "by_lines_yield (E @ [l]) eo nl =
     (fst (by_lines_yield E eo nl)
        @ [(utf8_encode l, snd (by_lines_yield E eo nl),
            snd (by_lines_yield E eo nl) + int (length (utf8_encode l)) + int (length nl),
            nl, None)],
      snd (by_lines_yield E eo nl) + int (length (utf8_encode l)) + int (length nl))"
proof (induction E arbitrary: eo)
  case Nil
  then show ?case by (simp add: Let_def)
next
  case (Cons a E)
  show ?case
    using Cons [of "eo + int (length (utf8_encode a)) + int (length nl)"]
    by (simp add: Let_def split: prod.splits)
qed

lemma by_lines_empty: "by_lines rs ([[]], None) = ([], None)"
  by (simp add: by_lines_def by_lines_chunk_def by_lines_tail_def)

lemma by_lines_single_lf:
  assumes ne: "E \<noteq> []" and cl: "\<forall>l \<in> set E. clean l" and good: "good_text (lf_join E [])"
  shows "by_lines rs ([utf8_encode (lf_join E [])], None) = (fst (by_lines_yield E rs LF), None)"
proof -
  define t where "t = lf_join E []"
  have E: "E = butlast E @ [last E]" using ne by simp
  have t: "t = lf_join (butlast E) (last E @ [10])"
    unfolding t_def using lf_join_append [of "butlast E" "[last E]" "[]"] E by simp
  have tne: "t \<noteq> []" and lt: "last t = 10"
    using t by (simp_all add: lf_join_def)
  have lf: "lf_only t"
    unfolding t_def using cl by (induction E) (auto dest: clean_lf_only)
  have sp: "splitlines t = E"
    unfolding t_def using splitlines_lf_join [OF cl, of "[]"] by simp
  have dec: "utf8_decode ([] @ utf8_encode t) = Some t"
    using utf8_decode_encode good by (simp add: t_def)
  have gl: "good_text (last E)" and cle: "clean (last E)"
    using good good_text_lf_join [of E "[]"] ne cl by auto
  obtain recs eo' where y: "by_lines_yield (butlast E) rs LF = (recs, eo')"
    by fastforce
  have ch: "by_lines_chunk (rs, []) (utf8_encode t)
              = Inr (recs, (eo', utf8_encode (last E) @ LF))"
    using by_lines_chunk_lf [OF dec lf tne, of rs] sp lt y by simp
  have tl: "by_lines_tail (eo', utf8_encode (last E) @ LF)
              = [(utf8_encode (last E), eo', eo' + int (length (utf8_encode (last E))) + 1, LF, None)]"
    using by_lines_tail_clean(2) [OF gl cle] .
  have "fst (by_lines_yield E rs LF)
          = recs @ [(utf8_encode (last E), eo', eo' + int (length (utf8_encode (last E))) + 1, LF, None)]"
    using by_lines_yield_snoc [of "butlast E" "last E" rs LF] E y by (simp add: LF_def)
  then show ?thesis
    using ch tl by (simp add: by_lines_def t_def)
qed

subsection \<open>The line that is not JSON\<close>

lemma not_json_decode: "utf8_decode not_json_line = Some not_json_text"
  by (simp add: not_json_line_def not_json_text_def utf8_decode.simps)

lemma not_json_good: "good_text not_json_text" "utf8_encode not_json_text = not_json_line"
  using utf8_decode_sound [OF not_json_decode] by auto

lemma not_json_clean: "clean not_json_text"
  by (simp add: not_json_line_def not_json_text_def is_linebreak_def)

lemma not_json_length: "int (length not_json_line) = 16"
  by (simp add: not_json_line_def)

lemma not_json_start: "dropWhile py_isspace not_json_text = not_json_text" "hd not_json_text = 123"
  "not_json_text \<noteq> []"
  by (simp_all add: not_json_line_def not_json_text_def py_isspace_def)

lemma good_text_lf: "good_text [10]"
  by (simp add: byte_ok_def decodable_def utf8_encode_char_def char_of_10 utf8_decode.simps(2))

lemma encode_lf: "utf8_encode [10] = LF"
  by (simp add: utf8_encode_char_def char_of_10 LF_def)

lemma not_json_lines_good: "good_text (lf_join (replicate n not_json_text) [])"
  using not_json_good(1) good_text_lf by (induction n) simp_all

lemma not_json_lines_encode:
  "utf8_encode (lf_join (replicate n not_json_text) []) = concat (replicate n (not_json_line @ LF))"
  using not_json_good(2) encode_lf by (induction n) simp_all

lemma not_json_yield:
  "by_lines_yield (replicate n not_json_text) rs LF
     = (line_records rs not_json_line n, rs + int n * 17)"
proof (induction n arbitrary: rs)
  case 0
  then show ?case by simp
next
  case (Suc n)
  show ?case
    using Suc [of "rs + 17"]
    by (simp add: Let_def not_json_good(2) not_json_length LF_def algebra_simps)
qed

lemma by_lines_not_json:
  "by_lines rs ([concat (replicate n (not_json_line @ LF))], None)
     = (line_records rs not_json_line n, None)"
proof (cases n)
  case 0
  then show ?thesis by (simp add: by_lines_empty)
next
  case (Suc m)
  have "by_lines rs ([utf8_encode (lf_join (replicate n not_json_text) [])], None)
          = (fst (by_lines_yield (replicate n not_json_text) rs LF), None)"
    using not_json_clean not_json_lines_good [of n] Suc
    by (intro by_lines_single_lf) auto
  then show ?thesis
    by (simp add: not_json_lines_encode not_json_yield)
qed

subsection \<open>The collector on lines that never parse\<close>

lemma fallback_yield_not_json:
  "fallback_yield s (line_records (ending_offset s) not_json_line m)
     = (line_records (ending_offset s) not_json_line m,
        if m = 0 then s
        else s\<lparr>starting_offset := ending_offset s + (int m - 1) * 17,
               ending_offset := ending_offset s + int m * 17,
               unfinished_line := [], has_an_object_start := False\<rparr>)"
proof (induction m arbitrary: s)
  case 0
  then show ?case by simp
next
  case (Suc m)
  let ?s2 = "s\<lparr>starting_offset := ending_offset s, ending_offset := ending_offset s + 17,
               unfinished_line := [], has_an_object_start := False\<rparr>"
  have ih: "fallback_yield ?s2 (line_records (ending_offset s + 17) not_json_line m)
     = (line_records (ending_offset s + 17) not_json_line m,
        if m = 0 then ?s2
        else ?s2\<lparr>starting_offset := ending_offset s + 17 + (int m - 1) * 17,
                ending_offset := ending_offset s + 17 + int m * 17,
                unfinished_line := [], has_an_object_start := False\<rparr>)"
    using Suc [of ?s2] by simp
  show ?case
    by (simp add: Let_def handle_offset_def not_json_length LF_def ih algebra_simps)
qed

lemma by_lines_fallback_not_json:
  assumes "unfinished_line s = concat (replicate m (not_json_line @ LF))"
  shows "by_lines_fallback s
           = ((line_records (ending_offset s) not_json_line m, None),
              if m = 0 then s
              else s\<lparr>starting_offset := ending_offset s + (int m - 1) * 17,
                     ending_offset := ending_offset s + int m * 17,
                     unfinished_line := [], has_an_object_start := False\<rparr>)"
  by (simp add: by_lines_fallback_def assms by_lines_not_json fallback_yield_not_json)

lemma replicate_snoc_concat:
  "concat (replicate m (a @ b)) @ a @ b = a @ b @ concat (replicate m (a @ b))"
  by (induction m) simp_all

lemma step_buffers:
  assumes H: "\<forall>k. json_parser (concat (replicate (Suc k) (not_json_line @ LF))) = None"
      and s: "\<not> is_a_json_object s" "\<not> is_a_json_object_circuit_broken s"
        "is_a_json_object_circuit_breaker s < 1000"
        "unfinished_line s = concat (replicate m (not_json_line @ LF))"
  shows "json_collector_step ndjson_storage json_parser s (not_json_line, so, eo, LF, x)
           = ([], Inr (s\<lparr>has_an_object_start := True,
                           unfinished_line := concat (replicate (Suc m) (not_json_line @ LF)),
                           is_a_json_object_circuit_breaker :=
                             is_a_json_object_circuit_breaker s + 1\<rparr>))"
proof -
  define s1 where "s1 = s\<lparr>has_an_object_start := True\<rparr>"
  have p: "json_parser (concat (replicate m (not_json_line @ LF)) @ not_json_line @ LF) = None"
    using H [rule_format, of m] by (simp add: replicate_snoc_concat)
  have c: "collector json_parser not_json_line LF s1
             = ([], s\<lparr>has_an_object_start := True,
                       unfinished_line := concat (replicate (Suc m) (not_json_line @ LF)),
                       is_a_json_object_circuit_breaker :=
                         is_a_json_object_circuit_breaker s + 1\<rparr>)"
    using p s by (simp add: collector_def Let_def replicate_snoc_concat s1_def)
  have nb: "\<not> is_a_json_object_circuit_broken
              (s\<lparr>has_an_object_start := True,
                 unfinished_line := concat (replicate (Suc m) (not_json_line @ LF)),
                 is_a_json_object_circuit_breaker := is_a_json_object_circuit_breaker s + 1\<rparr>)"
    using s by simp
  have h1: "has_an_object_start s1" by (simp add: s1_def)
  have pre: "json_collector_forward s (not_json_line, so, eo, LF, x) = Inr ([], s1)"
  proof (cases "has_an_object_start s")
    case True
    then have "s1 = s" by (simp add: s1_def)
    then show ?thesis using True by (simp add: json_collector_forward_def)
  next
    case False
    then show ?thesis
      using not_json_decode not_json_start
      by (simp add: json_collector_forward_def Let_def s1_def)
  qed
  show ?thesis
    using nb by (simp add: json_collector_step_def pre h1 c)
qed

lemma step_falls_back:
  assumes H: "\<forall>k. json_parser (concat (replicate (Suc k) (not_json_line @ LF))) = None"
      and s: "\<not> is_a_json_object s" "1000 \<le> is_a_json_object_circuit_breaker s"
        "unfinished_line s = concat (replicate m (not_json_line @ LF))"
  shows "json_collector_step ndjson_storage json_parser s (not_json_line, so, eo, LF, x)
           = (line_records (ending_offset s) not_json_line (Suc m),
              Inr (s\<lparr>starting_offset := ending_offset s + int m * 17,
                      ending_offset := ending_offset s + (int m + 1) * 17,
                      unfinished_line := [], has_an_object_start := False,
                      is_a_json_object_circuit_broken := True,
                      is_a_json_object_circuit_breaker :=
                        is_a_json_object_circuit_breaker s + 1\<rparr>))"
proof -
  define s1 where "s1 = s\<lparr>has_an_object_start := True\<rparr>"
  define s2 where "s2 = s\<lparr>has_an_object_start := True,
                       unfinished_line := concat (replicate (Suc m) (not_json_line @ LF)),
                       is_a_json_object_circuit_breaker :=
                         is_a_json_object_circuit_breaker s + 1,
                       is_a_json_object_circuit_broken := True\<rparr>"
  have p: "json_parser (concat (replicate m (not_json_line @ LF)) @ not_json_line @ LF) = None"
    using H [rule_format, of m] by (simp add: replicate_snoc_concat)
  have c: "collector json_parser not_json_line LF s1 = ([], s2)"
    using p s by (simp add: collector_def Let_def s1_def s2_def replicate_snoc_concat)
  have u2: "unfinished_line s2 = concat (replicate (Suc m) (not_json_line @ LF))"
    by (simp add: s2_def)
  have f: "by_lines_fallback s2
           = ((line_records (ending_offset s) not_json_line (Suc m), None),
              s\<lparr>starting_offset := ending_offset s + int m * 17,
                ending_offset := ending_offset s + (int m + 1) * 17,
                unfinished_line := [], has_an_object_start := False,
                is_a_json_object_circuit_broken := True,
                is_a_json_object_circuit_breaker := is_a_json_object_circuit_breaker s + 1\<rparr>)"
    unfolding by_lines_fallback_not_json [OF u2]
    by (simp add: s2_def algebra_simps)
  have b2: "is_a_json_object_circuit_broken s2"
    by (simp add: s2_def)
  have h1: "has_an_object_start s1" by (simp add: s1_def)
  have pre: "json_collector_forward s (not_json_line, so, eo, LF, x) = Inr ([], s1)"
  proof (cases "has_an_object_start s")
    case True
    then have "s1 = s" by (simp add: s1_def)
    then show ?thesis using True by (simp add: json_collector_forward_def)
  next
    case False
    then show ?thesis
      using not_json_decode not_json_start
      by (simp add: json_collector_forward_def Let_def s1_def)
  qed
  show ?thesis
    by (simp add: json_collector_step_def pre h1 c b2 f)
qed

subsection \<open>The loop of the collector\<close>

lemma json_collector_loop_append:
  "json_collector_loop st p s (xs @ ys) =
     (case json_collector_loop st p s xs of
        (o1, Inl e) \<Rightarrow> (o1, Inl e)
      | (o1, Inr s1) \<Rightarrow> (let (o2, r) = json_collector_loop st p s1 ys in (o1 @ o2, r)))"
proof (induction xs arbitrary: s)
  case Nil
  then show ?case by (simp split: prod.splits)
next
  case (Cons r xs)
  show ?case
  proof (cases "json_collector_step st p s r")
    case (Pair out res)
    then show ?thesis
      using Cons by (cases res) (auto simp: Let_def split: prod.splits sum.splits)
  qed
qed

lemma line_records_append:
  "line_records off line (a + b)
     = line_records off line a @ line_records (off + int a * (int (length line) + 1)) line b"
  by (induction a arbitrary: off) (simp_all add: algebra_simps)

lemma length_line_records [simp]: "length (line_records off line n) = n"
  by (induction n arbitrary: off) simp_all

lemma nth_line_records:
  "i < n \<Longrightarrow> line_records off line n ! i
     = (line, off + int i * (int (length line) + 1),
        off + (int i + 1) * (int (length line) + 1), LF, None)"
proof (induction n arbitrary: off i)
  case 0
  then show ?case by simp
next
  case (Suc n)
  show ?case
  proof (cases i)
    case 0
    then show ?thesis by simp
  next
    case (Suc i')
    then show ?thesis
      using Suc.IH [of i' "off + int (length line) + 1"] Suc.prems
      by (simp add: algebra_simps)
  qed
qed

lemma loop_buffers:
  assumes H: "\<forall>k. json_parser (concat (replicate (Suc k) (not_json_line @ LF))) = None"
  shows "\<not> is_a_json_object s \<Longrightarrow> \<not> is_a_json_object_circuit_broken s \<Longrightarrow>
         is_a_json_object_circuit_breaker s + int j \<le> 1000 \<Longrightarrow>
         unfinished_line s = concat (replicate m (not_json_line @ LF)) \<Longrightarrow>
         json_collector_loop ndjson_storage json_parser s (line_records off not_json_line j)
           = ([], Inr (if j = 0 then s
                       else s\<lparr>has_an_object_start := True,
                              unfinished_line := concat (replicate (m + j) (not_json_line @ LF)),
                              is_a_json_object_circuit_breaker :=
                                is_a_json_object_circuit_breaker s + int j\<rparr>))"
proof (induction j arbitrary: s m off)
  case 0
  then show ?case by simp
next
  case (Suc j)
  let ?s1 = "s\<lparr>has_an_object_start := True,
               unfinished_line := concat (replicate (Suc m) (not_json_line @ LF)),
               is_a_json_object_circuit_breaker := is_a_json_object_circuit_breaker s + 1\<rparr>"
  have st: "json_collector_step ndjson_storage json_parser s
              (not_json_line, off, off + int (length not_json_line) + 1, LF, None)
            = ([], Inr ?s1)"
    using step_buffers [OF H Suc.prems(1,2) _ Suc.prems(4)] Suc.prems(3) by simp
  have ih: "json_collector_loop ndjson_storage json_parser ?s1
              (line_records (off + int (length not_json_line) + 1) not_json_line j)
           = ([], Inr (if j = 0 then ?s1
                       else ?s1\<lparr>has_an_object_start := True,
                              unfinished_line :=
                                concat (replicate (Suc m + j) (not_json_line @ LF)),
                              is_a_json_object_circuit_breaker :=
                                is_a_json_object_circuit_breaker ?s1 + int j\<rparr>))"
    using Suc.prems by (intro Suc.IH) simp_all
  show ?case
    using st ih by (cases "j = 0") (simp_all add: add.commute)
qed

lemma loop_falls_back:
  assumes H: "\<forall>k. json_parser (concat (replicate (Suc k) (not_json_line @ LF))) = None"
  shows "\<not> is_a_json_object s \<Longrightarrow> 1000 \<le> is_a_json_object_circuit_breaker s \<Longrightarrow>
         unfinished_line s = [] \<Longrightarrow>
         json_collector_loop ndjson_storage json_parser s
             (line_records (ending_offset s) not_json_line j)
           = (line_records (ending_offset s) not_json_line j,
              Inr (if j = 0 then s
                   else s\<lparr>starting_offset := ending_offset s + (int j - 1) * 17,
                          ending_offset := ending_offset s + int j * 17,
                          unfinished_line := [], has_an_object_start := False,
                          is_a_json_object_circuit_broken := True,
                          is_a_json_object_circuit_breaker :=
                            is_a_json_object_circuit_breaker s + int j\<rparr>))"
proof (induction j arbitrary: s)
  case 0
  then show ?case by simp
next
  case (Suc j)
  let ?s1 = "s\<lparr>starting_offset := ending_offset s,
               ending_offset := ending_offset s + 17,
               unfinished_line := [], has_an_object_start := False,
               is_a_json_object_circuit_broken := True,
               is_a_json_object_circuit_breaker := is_a_json_object_circuit_breaker s + 1\<rparr>"
  have u: "unfinished_line s = concat (replicate 0 (not_json_line @ LF))"
    using Suc.prems(3) by simp
  have st: "json_collector_step ndjson_storage json_parser s
              (not_json_line, ending_offset s, ending_offset s + int (length not_json_line) + 1,
               LF, None)
            = ([(not_json_line, ending_offset s, ending_offset s + 17, LF, None)], Inr ?s1)"
    using step_falls_back [OF H Suc.prems(1,2) u] by (simp add: not_json_length)
  have ih: "json_collector_loop ndjson_storage json_parser ?s1
              (line_records (ending_offset s + 17) not_json_line j)
           = (line_records (ending_offset s + 17) not_json_line j,
              Inr (if j = 0 then ?s1
                   else ?s1\<lparr>starting_offset := ending_offset s + 17 + (int j - 1) * 17,
                          ending_offset := ending_offset s + 17 + int j * 17,
                          unfinished_line := [], has_an_object_start := False,
                          is_a_json_object_circuit_broken := True,
                          is_a_json_object_circuit_breaker :=
                            is_a_json_object_circuit_breaker ?s1 + int j\<rparr>))"
    using Suc.IH [of ?s1] Suc.prems by simp
  show ?case
    using st ih by (cases "j = 0") (simp_all add: not_json_length algebra_simps)
qed

lemma step_trips:
  assumes "has_an_object_start s"
      and "json_parser (unfinished_line s @ data @ newline) = None"
      and "\<not> (is_a_json_object s \<and> strip_newlines (unfinished_line s @ data @ newline) = [])"
      and "1000 \<le> is_a_json_object_circuit_breaker s"
  shows "json_collector_step storage json_parser s (data, so, eo, newline, x)
           = (let s' = s\<lparr>unfinished_line := unfinished_line s @ data @ newline,
                         is_a_json_object_circuit_breaker :=
                           is_a_json_object_circuit_breaker s + 1,
                         is_a_json_object_circuit_broken := True\<rparr>;
                  ((lines, err), s3) = by_lines_fallback s'
              in (lines, (case err of Some e \<Rightarrow> Inl e | None \<Rightarrow> Inr s3)))"
  using assms
  by (auto simp: json_collector_step_def json_collector_forward_def collector_def Let_def
      split: prod.splits)

lemma drain_not_json:
  assumes "\<not> is_a_json_object s" "unfinished_line s = []"
  shows "json_collector_drain s = ([], Inr s)"
proof -
  have u: "unfinished_line s = concat (replicate 0 (not_json_line @ LF))"
    using assms(2) by simp
  show ?thesis
    using assms(1) by (simp add: json_collector_drain_def by_lines_fallback_not_json [OF u])
qed

lemma run_2000:
  assumes H: "\<forall>k. json_parser (concat (replicate (Suc k) (not_json_line @ LF))) = None"
  shows "json_collector_run ndjson_storage json_parser 0
           (multi_line ndjson_storage 0
              (by_lines 0 ([concat (replicate 2000 (not_json_line @ LF))], None)))
         = (line_records 0 not_json_line 2000,
            Inr \<lparr>starting_offset = 33983, ending_offset = 34000, unfinished_line = [],
                 has_an_object_start = False, is_a_json_object = False,
                 is_a_json_object_circuit_broken = True,
                 is_a_json_object_circuit_breaker = 2000\<rparr>)"
proof -
  define s0 where "s0 = new_json_collector_state\<lparr>ending_offset := 0\<rparr>"
  define sA where "sA = s0\<lparr>has_an_object_start := True,
                           unfinished_line := concat (replicate (0 + 1000) (not_json_line @ LF)),
                           is_a_json_object_circuit_breaker :=
                             is_a_json_object_circuit_breaker s0 + int 1000\<rparr>"
  define sT where "sT = sA\<lparr>starting_offset := ending_offset sA + int 1000 * 17,
                      ending_offset := ending_offset sA + (int 1000 + 1) * 17,
                      unfinished_line := [], has_an_object_start := False,
                      is_a_json_object_circuit_broken := True,
                      is_a_json_object_circuit_breaker :=
                        is_a_json_object_circuit_breaker sA + 1\<rparr>"
  define sF where "sF = sT\<lparr>starting_offset := ending_offset sT + (int 999 - 1) * 17,
                          ending_offset := ending_offset sT + int 999 * 17,
                          unfinished_line := [], has_an_object_start := False,
                          is_a_json_object_circuit_broken := True,
                          is_a_json_object_circuit_breaker :=
                            is_a_json_object_circuit_breaker sT + int 999\<rparr>"
  have up: "multi_line ndjson_storage 0
              (by_lines 0 ([concat (replicate 2000 (not_json_line @ LF))], None))
            = (line_records 0 not_json_line 2000, None)"
    by (simp add: multi_line_def ndjson_storage_def by_lines_not_json)
  have s0: "\<not> is_a_json_object s0" "\<not> is_a_json_object_circuit_broken s0"
    "is_a_json_object_circuit_breaker s0 + int 1000 \<le> 1000"
    "unfinished_line s0 = concat (replicate 0 (not_json_line @ LF))"
    "ending_offset s0 = 0"
    by (simp_all add: s0_def new_json_collector_state_def)
  have A: "json_collector_loop ndjson_storage json_parser s0 (line_records 0 not_json_line 1000)
             = ([], Inr sA)"
    using loop_buffers [OF H s0(1,2,3,4), of 0] by (simp add: sA_def)
  have sA: "\<not> is_a_json_object sA" "1000 \<le> is_a_json_object_circuit_breaker sA"
    "unfinished_line sA = concat (replicate 1000 (not_json_line @ LF))" "ending_offset sA = 0"
    using s0 by (simp_all add: sA_def s0_def new_json_collector_state_def)
  have T: "json_collector_step ndjson_storage json_parser sA
             (not_json_line, 17000, 17017, LF, None)
           = (line_records 0 not_json_line (Suc 1000), Inr sT)"
    using step_falls_back [OF H sA(1,2,3), of 17000 17017 None] sA(4) by (simp add: sT_def)
  have sT: "\<not> is_a_json_object sT" "1000 \<le> is_a_json_object_circuit_breaker sT"
    "unfinished_line sT = []" "ending_offset sT = 17017"
    using sA by (simp_all add: sT_def)
  have B: "json_collector_loop ndjson_storage json_parser sT (line_records 17017 not_json_line 999)
             = (line_records 17017 not_json_line 999, Inr sF)"
    using loop_falls_back [OF H sT(1,2,3), of 999] sT(4) by (simp add: sF_def)
  have sF: "\<not> is_a_json_object sF" "unfinished_line sF = []"
    using sT by (simp_all add: sF_def)
  have split1: "line_records 0 not_json_line 2000
                  = line_records 0 not_json_line 1000
                    @ (not_json_line, 17000, 17017, LF, None)
                    # line_records 17017 not_json_line 999"
  proof -
    have e: "line_records 17000 not_json_line 1000
               = (not_json_line, 17000, 17017, LF, None) # line_records 17017 not_json_line 999"
      using line_records.simps(2) [of 17000 not_json_line 999] by (simp add: not_json_length)
    have "line_records 0 not_json_line 2000
            = line_records 0 not_json_line 1000 @ line_records 17000 not_json_line 1000"
      using line_records_append [of 0 not_json_line 1000 1000] by (simp add: not_json_length)
    then show ?thesis by (simp only: e)
  qed
  have split2: "line_records 0 not_json_line 2000
                  = line_records 0 not_json_line (Suc 1000) @ line_records 17017 not_json_line 999"
  proof -
    have "line_records 0 not_json_line (Suc 1000 + 999)
            = line_records 0 not_json_line (Suc 1000)
              @ line_records (0 + int (Suc 1000) * (int (length not_json_line) + 1))
                  not_json_line 999"
      by (rule line_records_append)
    moreover have "Suc 1000 + 999 = 2000" by simp
    moreover have "0 + int (Suc 1000) * (int (length not_json_line) + 1) = 17017"
      by (simp add: not_json_length)
    ultimately show ?thesis by (simp only:)
  qed
  have loop: "json_collector_loop ndjson_storage json_parser s0 (line_records 0 not_json_line 2000)
                = (line_records 0 not_json_line 2000, Inr sF)"
    unfolding split1 json_collector_loop_append
    by (simp only: A prod.case sum.case json_collector_loop.simps T B Let_def append_Nil
        split1 [symmetric] split2 [symmetric])
  have fin: "sF = \<lparr>starting_offset = 33983, ending_offset = 34000, unfinished_line = [],
                 has_an_object_start = False, is_a_json_object = False,
                 is_a_json_object_circuit_broken = True,
                 is_a_json_object_circuit_breaker = 2000\<rparr>"
    by (simp add: sF_def sT_def sA_def s0_def new_json_collector_state_def)
  show ?thesis
    unfolding up
    using loop drain_not_json [OF sF]
    by (simp add: json_collector_run_def ndjson_storage_def s0_def [symmetric] fin)
qed

lemma by_lines_xy:
  "by_lines 0 ([x_line @ LF @ y_line @ LF], None)
     = ([(x_line, 0, 8, LF, None), (y_line, 8, 16, LF, None)], None)"
  by (simp add: x_line_def y_line_def by_lines_def by_lines_chunk_def by_lines_tail_def Let_def
      is_linebreak_def bytes_find_def startswith_def endswith_def CRLF_def LF_def utf8_encode_def
      utf8_encode_char_def py_rstrip_def utf8_decode.simps char_of_nat_eq)

lemma collector_parses:
  assumes "json_parser (unfinished_line s @ data @ newline) = Some json_object"
  shows "case collector json_parser data newline s of (collected, s') \<Rightarrow>
           collected = [(strip_newlines (unfinished_line s @ data @ newline), Some json_object)]
         \<and> is_a_json_object s' \<and> unfinished_line s' = []
         \<and> starting_offset s' = ending_offset s
         \<and> ending_offset s'
             = ending_offset s + int (length (unfinished_line s @ data @ newline))
         \<and> collected_records ndjson_storage newline s' (hd collected)
             = [(strip_newlines (unfinished_line s @ data @ newline), ending_offset s,
                 ending_offset s + int (length (unfinished_line s @ data @ newline)),
                 newline, None)]"
  using assms
  by (simp add: collector_def Let_def handle_offset_def collected_records_def ndjson_storage_def)

lemma run_xy:
  assumes "json_parser (x_line @ LF) = Some x_object" "json_parser (y_line @ LF) = Some y_object"
  shows "json_collector_run ndjson_storage json_parser 0
           (multi_line ndjson_storage 0 (by_lines 0 ([x_line @ LF @ y_line @ LF], None)))
         = ([(x_line, 0, 8, LF, None), (y_line, 8, 16, LF, None)],
            Inr \<lparr>starting_offset = 8, ending_offset = 16, unfinished_line = [],
                 has_an_object_start = True, is_a_json_object = True,
                 is_a_json_object_circuit_broken = False,
                 is_a_json_object_circuit_breaker = 0\<rparr>)"
proof -
  define s0 where "s0 = new_json_collector_state\<lparr>ending_offset := 0\<rparr>"
  define s1 where "s1 = \<lparr>starting_offset = 0, ending_offset = 8, unfinished_line = [],
                 has_an_object_start = True, is_a_json_object = True,
                 is_a_json_object_circuit_broken = False,
                 is_a_json_object_circuit_breaker = 0\<rparr>"
  define s2 where "s2 = \<lparr>starting_offset = 8, ending_offset = 16, unfinished_line = [],
                 has_an_object_start = True, is_a_json_object = True,
                 is_a_json_object_circuit_broken = False,
                 is_a_json_object_circuit_breaker = 0\<rparr>"
  have sx: "strip_newlines (x_line @ LF) = x_line" and sy: "strip_newlines (y_line @ LF) = y_line"
    by (simp_all add: strip_newlines_def py_strip_def py_lstrip_def py_rstrip_def x_line_def
        y_line_def LF_def CRLF_def)
  have cx: "bytes_count (x_line @ LF) LF = 1" and cy: "bytes_count (y_line @ LF) LF = 1"
    by (simp_all add: bytes_count_def x_line_def y_line_def LF_def startswith_def)
  have lx: "int (length (x_line @ LF)) = 8" and ly: "int (length (y_line @ LF)) = 8"
    by (simp_all add: x_line_def y_line_def LF_def)
  have nl: "LF \<noteq> []" by (simp add: LF_def)
  have f1: "json_collector_forward s0 (x_line, 0, 8, LF, None)
              = Inr ([], s0\<lparr>has_an_object_start := True\<rparr>)"
    by (simp add: json_collector_forward_def s0_def new_json_collector_state_def x_line_def
        utf8_decode.simps py_isspace_def)
  have c1: "collector json_parser x_line LF (s0\<lparr>has_an_object_start := True\<rparr>)
              = ([(x_line, Some x_object)], s1)"
    using assms(1) sx cx lx nl
    by (simp add: collector_def Let_def handle_offset_def s0_def s1_def
        new_json_collector_state_def)
  have st1: "json_collector_step ndjson_storage json_parser s0 (x_line, 0, 8, LF, None)
               = ([(x_line, 0, 8, LF, None)], Inr s1)"
    by (simp add: json_collector_step_def f1 c1 collected_records_def ndjson_storage_def)
       (simp add: s1_def)
  have f2: "json_collector_forward s1 (y_line, 8, 16, LF, None) = Inr ([], s1)"
    by (simp add: json_collector_forward_def s1_def)
  have c2: "collector json_parser y_line LF s1 = ([(y_line, Some y_object)], s2)"
    using assms(2) sy cy ly nl
    by (simp add: collector_def Let_def handle_offset_def s1_def s2_def)
  have h1: "has_an_object_start s1" by (simp add: s1_def)
  have st2: "json_collector_step ndjson_storage json_parser s1 (y_line, 8, 16, LF, None)
               = ([(y_line, 8, 16, LF, None)], Inr s2)"
    by (simp add: json_collector_step_def f2 c2 h1 collected_records_def ndjson_storage_def)
       (simp add: s2_def)
  have dr: "json_collector_drain s2 = ([], Inr s2)"
    by (simp add: json_collector_drain_def s2_def)
  show ?thesis
    by (simp add: by_lines_xy multi_line_def json_collector_run_def ndjson_storage_def
        s0_def [symmetric])
       (simp add: st1 [unfolded ndjson_storage_def] st2 [unfolded ndjson_storage_def] dr
        s2_def [symmetric])
qed

lemma loop_1000:
  assumes H: "\<forall>k. json_parser (concat (replicate (Suc k) (not_json_line @ LF))) = None"
      and j: "j \<le> 1000"
  shows "json_collector_loop ndjson_storage json_parser start_state
           (line_records 0 not_json_line j)
         = ([], Inr (if j = 0 then start_state
                     else start_state\<lparr>has_an_object_start := True,
                            unfinished_line := concat (replicate j (not_json_line @ LF)),
                            is_a_json_object_circuit_breaker := int j\<rparr>))"
proof -
  have s0: "\<not> is_a_json_object start_state" "\<not> is_a_json_object_circuit_broken start_state"
    "is_a_json_object_circuit_breaker start_state + int j \<le> 1000"
    "unfinished_line start_state = concat (replicate 0 (not_json_line @ LF))"
    using j by (simp_all add: start_state_def new_json_collector_state_def)
  show ?thesis
    using loop_buffers [OF H s0, of 0]
    by (simp add: start_state_def new_json_collector_state_def)
qed

lemma loop_1001:
  assumes H: "\<forall>k. json_parser (concat (replicate (Suc k) (not_json_line @ LF))) = None"
  shows "json_collector_loop ndjson_storage json_parser start_state
           (line_records 0 not_json_line 1001)
         = (line_records 0 not_json_line 1001,
            Inr \<lparr>starting_offset = 17000, ending_offset = 17017, unfinished_line = [],
                 has_an_object_start = False, is_a_json_object = False,
                 is_a_json_object_circuit_broken = True,
                 is_a_json_object_circuit_breaker = 1001\<rparr>)"
proof -
  define sA where "sA = start_state\<lparr>has_an_object_start := True,
                           unfinished_line := concat (replicate 1000 (not_json_line @ LF)),
                           is_a_json_object_circuit_breaker := int 1000\<rparr>"
  have A: "json_collector_loop ndjson_storage json_parser start_state
             (line_records 0 not_json_line 1000) = ([], Inr sA)"
    using loop_1000 [OF H, of 1000] by (simp add: sA_def)
  have sA: "\<not> is_a_json_object sA" "1000 \<le> is_a_json_object_circuit_breaker sA"
    "unfinished_line sA = concat (replicate 1000 (not_json_line @ LF))" "ending_offset sA = 0"
    by (simp_all add: sA_def start_state_def new_json_collector_state_def)
  have T: "json_collector_step ndjson_storage json_parser sA
             (not_json_line, 17000, 17017, LF, None)
           = (line_records 0 not_json_line (Suc 1000),
              Inr \<lparr>starting_offset = 17000, ending_offset = 17017, unfinished_line = [],
                 has_an_object_start = False, is_a_json_object = False,
                 is_a_json_object_circuit_broken = True,
                 is_a_json_object_circuit_breaker = 1001\<rparr>)"
    using step_falls_back [OF H sA(1,2,3), of 17000 17017 None] sA(4)
    by (simp add: sA_def start_state_def new_json_collector_state_def)
  have e: "line_records 0 not_json_line 1001
             = line_records 0 not_json_line 1000 @ [(not_json_line, 17000, 17017, LF, None)]"
    using line_records_append [of 0 not_json_line 1000 "Suc 0"] by (simp add: not_json_length)
  have e': "line_records 0 not_json_line (Suc 1000) = line_records 0 not_json_line 1001"
    by simp
  show ?thesis
    unfolding e json_collector_loop_append
    by (simp only: A prod.case sum.case json_collector_loop.simps T Let_def append_Nil
        append_Nil2 e' e [symmetric])
qed

text \<open>
  C4. When the buffer with the new record parses, \<open>_collector\<close> yields the buffer stripped of
  surrounding \<open>\r\n\<close> and \<open>\n\<close>, sets \<open>is_a_json_object\<close>, empties the buffer, and moves the
  offsets on by the length of the buffer; the wrapper yields that payload with these offsets.
  On \<open>b'{"x":1}\n{"y":2}\n'\<close> in the mode \<open>ndjson\<close>, with a parser that parses the two lines,
  the stages yield the two payloads with the offsets \<open>(0, 8)\<close> and \<open>(8, 16)\<close>.
\<close>

theorem json_collector_parsed_objects:
  "(json_parser (unfinished_line s @ data @ newline) = Some json_object \<longrightarrow>
      (case collector json_parser data newline s of (collected, s') \<Rightarrow>
           collected = [(strip_newlines (unfinished_line s @ data @ newline), Some json_object)]
         \<and> is_a_json_object s' \<and> unfinished_line s' = []
         \<and> starting_offset s' = ending_offset s
         \<and> ending_offset s'
             = ending_offset s + int (length (unfinished_line s @ data @ newline))
         \<and> collected_records ndjson_storage newline s' (hd collected)
             = [(strip_newlines (unfinished_line s @ data @ newline), ending_offset s,
                 ending_offset s + int (length (unfinished_line s @ data @ newline)),
                 newline, None)]))
   \<and> (json_parser (x_line @ LF) = Some x_object \<and> json_parser (y_line @ LF) = Some y_object \<longrightarrow>
        json_collector_run ndjson_storage json_parser 0
           (multi_line ndjson_storage 0 (by_lines 0 ([x_line @ LF @ y_line @ LF], None)))
         = ([(x_line, 0, 8, LF, None), (y_line, 8, 16, LF, None)],
            Inr \<lparr>starting_offset = 8, ending_offset = 16, unfinished_line = [],
                 has_an_object_start = True, is_a_json_object = True,
                 is_a_json_object_circuit_broken = False,
                 is_a_json_object_circuit_breaker = 0\<rparr>))"
  using collector_parses [of json_parser s data newline json_object]
    run_xy [of json_parser x_object y_object]
  by blast

text \<open>The parser that knows the two lines, on a fresh state and on the whole input.\<close>

theorem json_collector_parsed_objects_witness:
  "xy_parser (unfinished_line new_json_collector_state @ x_line @ LF)
     = Some (PDict [(''x'', PInt 1)])
   \<and> xy_parser (x_line @ LF) = Some (PDict [(''x'', PInt 1)])
   \<and> xy_parser (y_line @ LF) = Some (PDict [(''y'', PInt 2)])
   \<and> fst (collector xy_parser x_line LF new_json_collector_state)
       = [(strip_newlines (x_line @ LF), Some (PDict [(''x'', PInt 1)]))]
   \<and> is_a_json_object (snd (collector xy_parser x_line LF new_json_collector_state))
   \<and> ending_offset (snd (collector xy_parser x_line LF new_json_collector_state)) = 8
   \<and> json_collector_run ndjson_storage xy_parser 0
        (multi_line ndjson_storage 0 (by_lines 0 ([x_line @ LF @ y_line @ LF], None)))
      = ([(x_line, 0, 8, LF, None), (y_line, 8, 16, LF, None)],
         Inr \<lparr>starting_offset = 8, ending_offset = 16, unfinished_line = [],
              has_an_object_start = True, is_a_json_object = True,
              is_a_json_object_circuit_broken = False,
              is_a_json_object_circuit_breaker = 0\<rparr>)"
proof -
  have p: "xy_parser (unfinished_line new_json_collector_state @ x_line @ LF)
             = Some (PDict [(''x'', PInt 1)])"
    "xy_parser (x_line @ LF) = Some (PDict [(''x'', PInt 1)])"
    "xy_parser (y_line @ LF) = Some (PDict [(''y'', PInt 2)])"
    by (simp_all add: xy_parser_def new_json_collector_state_def x_line_def y_line_def)
  have l: "int (length (x_line @ LF)) = 8"
    by (simp add: x_line_def LF_def)
  have u: "unfinished_line new_json_collector_state = []"
    "ending_offset new_json_collector_state = 0"
    by (simp_all add: new_json_collector_state_def)
  show ?thesis
    using json_collector_parsed_objects [of xy_parser new_json_collector_state x_line LF
        "PDict [(''x'', PInt 1)]" "PDict [(''x'', PInt 1)]" "PDict [(''y'', PInt 2)]"] p l u
    by (auto split: prod.splits)
qed

subsection \<open>Lines that end in \<open>\r\<close>\<close>

lemma splitlines_clean_cr:
  "clean l \<Longrightarrow> rest = [] \<or> hd rest \<noteq> 10 \<Longrightarrow> splitlines (l @ 13 # rest) = l # splitlines rest"
  by (induction l) (auto simp: is_linebreak_def)

lemma splitlines_cr_join:
  "\<forall>l \<in> set E. clean l \<and> l \<noteq> [] \<Longrightarrow> splitlines (cr_join E) = E"
proof (induction E)
  case Nil
  then show ?case by (simp add: cr_join_def)
next
  case (Cons l E)
  have cl: "clean l" "l \<noteq> []" using Cons.prems by simp_all
  have r: "cr_join E = [] \<or> hd (cr_join E) \<noteq> 10"
  proof (cases E)
    case Nil
    then show ?thesis by (simp add: cr_join_def)
  next
    case (Cons k E')
    then have k: "clean k" "k \<noteq> []" using Cons.prems by simp_all
    then have "hd k \<noteq> 10" by (cases k) (auto simp: is_linebreak_def)
    then show ?thesis using k Cons by (simp add: cr_join_def)
  qed
  have "cr_join (l # E) = l @ 13 # cr_join E" by (simp add: cr_join_def)
  then show ?case
    using splitlines_clean_cr [OF cl(1) r] Cons by simp
qed

lemma by_lines_yield_append:
  "by_lines_yield (A @ B) eo nl =
     (fst (by_lines_yield A eo nl) @ fst (by_lines_yield B (snd (by_lines_yield A eo nl)) nl),
      snd (by_lines_yield B (snd (by_lines_yield A eo nl)) nl))"
proof (induction A arbitrary: eo)
  case Nil
  then show ?case by simp
next
  case (Cons a A)
  show ?case
    using Cons [of "eo + int (length (utf8_encode a)) + int (length nl)"]
    by (simp add: Let_def split: prod.splits)
qed

lemma by_lines_yield_bare:
  "by_lines_yield (replicate n l) eo []
     = (bare_records eo (utf8_encode l) n, eo + int n * int (length (utf8_encode l)))"
proof (induction n arbitrary: eo)
  case 0
  then show ?case by simp
next
  case (Suc n)
  show ?case
    using Suc [of "eo + int (length (utf8_encode l))"]
    by (simp add: Let_def algebra_simps)
qed

lemma good_text_cr: "good_text [13]"
  by (simp add: byte_ok_def decodable_def utf8_encode_char_def char_of_13 utf8_decode.simps(2))

lemma encode_cr: "utf8_encode [13] = CR"
  by (simp add: utf8_encode_char_def char_of_13 CR_def)

lemma cr_join_simps [simp]:
  "cr_join [] = []"
  "cr_join (l # E) = l @ 13 # cr_join E"
  "cr_join (E @ F) = cr_join E @ cr_join F"
  by (simp_all add: cr_join_def)

lemma no_lf_in_cr_join: "\<forall>l \<in> set E. clean l \<Longrightarrow> 10 \<notin> set (cr_join E)"
  by (induction E) (auto simp: clean_def is_linebreak_def)

lemma by_lines_single_cr:
  assumes ne: "E \<noteq> []" and cl: "\<forall>l \<in> set E. clean l \<and> l \<noteq> []"
      and good: "good_text (cr_join E)"
  shows "by_lines rs ([utf8_encode (cr_join E)], None) = (fst (by_lines_yield E rs []), None)"
proof -
  define t where "t = cr_join E"
  have E: "E = butlast E @ [last E]" using ne by simp
  have sp: "splitlines t = E"
    unfolding t_def using splitlines_cr_join [OF cl] .
  have dec: "utf8_decode ([] @ utf8_encode t) = Some t"
    using utf8_decode_encode good by (simp add: t_def)
  have nolf: "CHR 0x0A \<notin> set (utf8_encode t)"
    using ascii_in_encode [of 10 t] good no_lf_in_cr_join [of E] cl
    by (simp add: t_def char_of_10)
  have f1: "\<not> bytes_find (utf8_encode t) LF > - 1"
    using bytes_find_absent [of LF "utf8_encode t"] nolf by (simp add: LF_def)
  have f2: "\<not> bytes_find (utf8_encode t) CRLF > - 1"
  proof -
    have t: "take (Suc 0) b \<noteq> [CHR 0x0A]" if "CHR 0x0A \<notin> set b" for b :: bytes
      using that by (cases b) auto
    have "bytes_find_from i b CRLF = - 1" if "CHR 0x0A \<notin> set b" for i b
      using that t by (induction b arbitrary: i) (auto simp: startswith_def CRLF_def)
    then show ?thesis using nolf by (simp add: bytes_find_def)
  qed
  have le: "last E \<in> set E" using ne by simp
  have gl: "good_text (last E)"
  proof -
    have "cr_join E = cr_join (butlast E) @ cr_join [last E]"
      using E cr_join_simps(3) [of "butlast E" "[last E]"] by simp
    then show ?thesis using good by simp
  qed
  have cle: "clean (last E)" "last E \<noteq> []" using cl le by auto
  obtain recs eo' where y: "by_lines_yield (butlast E) rs [] = (recs, eo')"
    by fastforce
  have Ene: "length E \<noteq> 0" using ne by simp
  have ch: "by_lines_chunk (rs, []) (utf8_encode t) = Inr (recs, (eo', utf8_encode (last E)))"
    using dec sp f1 f2 y Ene by (simp add: by_lines_chunk_def Let_def)
  have tl: "by_lines_tail (eo', utf8_encode (last E))
              = [(utf8_encode (last E), eo', eo' + int (length (utf8_encode (last E))), [], None)]"
    using by_lines_tail_clean(1) [OF gl cle(1)] cle(2) by simp
  have "fst (by_lines_yield E rs [])
          = recs @ [(utf8_encode (last E), eo', eo' + int (length (utf8_encode (last E))), [], None)]"
    using by_lines_yield_snoc [of "butlast E" "last E" rs "[]"] E y by simp
  then show ?thesis
    using ch tl by (simp add: by_lines_def t_def)
qed

lemma empty_object_decode: "utf8_decode empty_object = Some empty_object_text"
  by (simp add: empty_object_def empty_object_text_def utf8_decode.simps)

lemma empty_object_good:
  "good_text empty_object_text" "utf8_encode empty_object_text = empty_object"
  using utf8_decode_sound [OF empty_object_decode] by auto

lemma empty_object_clean: "clean empty_object_text" "empty_object_text \<noteq> []"
  by (simp_all add: empty_object_def empty_object_text_def is_linebreak_def)

lemma empty_object_length: "int (length empty_object) = 2"
  by (simp add: empty_object_def)

lemma empty_object_start:
  "dropWhile py_isspace empty_object_text = empty_object_text" "hd empty_object_text = 123"
  by (simp_all add: empty_object_def empty_object_text_def py_isspace_def)

lemma cr_join_replicate_good: "good_text l \<Longrightarrow> good_text (cr_join (replicate n l))"
  using good_text_cr by (induction n) simp_all

lemma cr_join_replicate_encode:
  "utf8_encode (cr_join (replicate n l)) = concat (replicate n (utf8_encode l @ CR))"
  using encode_cr by (induction n) simp_all

lemma by_lines_cr_stream:
  "by_lines 0 ([cr_stream], None)
     = (bare_records 0 empty_object 1000 @ bare_records 2000 not_json_line 1990, None)"
proof -
  define E where "E = replicate 1000 empty_object_text @ replicate 1990 not_json_text"
  have ne: "E \<noteq> []" by (simp add: E_def)
  have cl: "\<forall>l \<in> set E. clean l \<and> l \<noteq> []"
    using empty_object_clean not_json_clean not_json_start(3) by (auto simp: E_def)
  have good: "good_text (cr_join E)"
    using cr_join_replicate_good [OF empty_object_good(1)]
      cr_join_replicate_good [OF not_json_good(1)] by (simp add: E_def)
  have enc: "utf8_encode (cr_join E) = cr_stream"
    by (simp add: E_def cr_join_replicate_encode empty_object_good(2) not_json_good(2)
        cr_stream_def)
  have y: "fst (by_lines_yield E 0 [])
             = bare_records 0 empty_object 1000 @ bare_records 2000 not_json_line 1990"
    unfolding E_def by_lines_yield_append by_lines_yield_bare
    by (simp add: empty_object_good(2) not_json_good(2) empty_object_length)
  show ?thesis
    using by_lines_single_cr [OF ne cl good, of 0] enc y by simp
qed

lemma dropWhile_keeps: "x \<in> set xs \<Longrightarrow> \<not> P x \<Longrightarrow> x \<in> set (dropWhile P xs)"
  by (induction xs) auto

lemma py_strip_keeps: "c \<in> set b \<Longrightarrow> c \<notin> set chars \<Longrightarrow> c \<in> set (py_strip chars b)"
  by (simp add: py_strip_def py_rstrip_def py_lstrip_def dropWhile_keeps)

lemma strip_newlines_keeps:
  assumes "c \<in> set b" "c \<noteq> CHR 0x0D" "c \<noteq> CHR 0x0A"
  shows "strip_newlines b \<noteq> []"
proof -
  have n: "c \<notin> set CRLF" "c \<notin> set LF"
    using assms by (simp_all add: CRLF_def LF_def)
  have a: "c \<in> set (py_strip CRLF b)"
    by (rule py_strip_keeps [OF assms(1) n(1)])
  have "c \<in> set (py_strip LF (py_strip CRLF b))"
    by (rule py_strip_keeps [OF a n(2)])
  then show ?thesis by (auto simp: strip_newlines_def)
qed

lemma strip_newlines_empty_object: "strip_newlines empty_object = empty_object"
  by (simp add: strip_newlines_def py_strip_def py_rstrip_def py_lstrip_def empty_object_def
      CRLF_def LF_def)

lemma replicate_snoc_concat1: "concat (replicate m a) @ a = a @ concat (replicate m a)"
  by (induction m) simp_all

lemma step_collects_empty_object:
  assumes P: "json_parser empty_object = Some obj"
      and s: "\<not> is_a_json_object_circuit_broken s" "unfinished_line s = []"
  shows "json_collector_step ndjson_storage json_parser s (empty_object, so, eo, [], x)
           = ([(empty_object, ending_offset s, ending_offset s + 2, [], None)],
              Inr (s\<lparr>starting_offset := ending_offset s,
                      ending_offset := ending_offset s + 2,
                      has_an_object_start := True, is_a_json_object := True,
                      is_a_json_object_circuit_breaker :=
                        is_a_json_object_circuit_breaker s - 1\<rparr>))"
proof -
  define s1 where "s1 = s\<lparr>has_an_object_start := True\<rparr>"
  define s5 where "s5 = s\<lparr>starting_offset := ending_offset s,
                      ending_offset := ending_offset s + 2,
                      has_an_object_start := True, is_a_json_object := True,
                      is_a_json_object_circuit_breaker :=
                        is_a_json_object_circuit_breaker s - 1\<rparr>"
  have c: "collector json_parser empty_object [] s1 = ([(empty_object, Some obj)], s5)"
    using P s
    by (simp add: collector_def Let_def s1_def s5_def handle_offset_def
        strip_newlines_empty_object empty_object_length)
  have o: "collected_records ndjson_storage [] s5 (empty_object, Some obj)
             = [(empty_object, ending_offset s, ending_offset s + 2, [], None)]"
    by (simp add: collected_records_def ndjson_storage_def s5_def)
  have nb: "\<not> is_a_json_object_circuit_broken s5"
    using s by (simp add: s5_def)
  have h1: "has_an_object_start s1" by (simp add: s1_def)
  have pre: "json_collector_forward s (empty_object, so, eo, [], x) = Inr ([], s1)"
  proof (cases "has_an_object_start s")
    case True
    then have "s1 = s" by (simp add: s1_def)
    then show ?thesis using True by (simp add: json_collector_forward_def)
  next
    case False
    then show ?thesis
      using empty_object_decode empty_object_start empty_object_clean(2)
      by (simp add: json_collector_forward_def Let_def s1_def)
  qed
  show ?thesis
    using nb o by (simp add: json_collector_step_def pre h1 c s5_def [symmetric])
qed

lemma loop_collects_empty_objects:
  assumes P: "json_parser empty_object = Some obj"
  shows "\<not> is_a_json_object_circuit_broken s \<Longrightarrow> unfinished_line s = [] \<Longrightarrow>
         json_collector_loop ndjson_storage json_parser s (bare_records off empty_object n)
           = (bare_records (ending_offset s) empty_object n,
              Inr (if n = 0 then s
                   else s\<lparr>starting_offset := ending_offset s + 2 * (int n - 1),
                          ending_offset := ending_offset s + 2 * int n,
                          has_an_object_start := True, is_a_json_object := True,
                          is_a_json_object_circuit_breaker :=
                            is_a_json_object_circuit_breaker s - int n\<rparr>))"
proof (induction n arbitrary: s off)
  case 0
  then show ?case by simp
next
  case (Suc n)
  let ?s1 = "s\<lparr>starting_offset := ending_offset s,
               ending_offset := ending_offset s + 2,
               has_an_object_start := True, is_a_json_object := True,
               is_a_json_object_circuit_breaker := is_a_json_object_circuit_breaker s - 1\<rparr>"
  have st: "json_collector_step ndjson_storage json_parser s
              (empty_object, off, off + int (length empty_object), [], None)
            = ([(empty_object, ending_offset s, ending_offset s + 2, [], None)], Inr ?s1)"
    using P Suc.prems by (rule step_collects_empty_object)
  have ih: "json_collector_loop ndjson_storage json_parser ?s1
              (bare_records (off + int (length empty_object)) empty_object n)
           = (bare_records (ending_offset s + 2) empty_object n,
              Inr (if n = 0 then ?s1
                   else ?s1\<lparr>starting_offset := ending_offset s + 2 + 2 * (int n - 1),
                          ending_offset := ending_offset s + 2 + 2 * int n,
                          has_an_object_start := True, is_a_json_object := True,
                          is_a_json_object_circuit_breaker :=
                            is_a_json_object_circuit_breaker ?s1 - int n\<rparr>))"
    using Suc.IH [of ?s1] Suc.prems by simp
  show ?case
    using st ih by (cases "n = 0") (simp_all add: empty_object_length algebra_simps)
qed

lemma step_buffers_bare:
  assumes H: "\<forall>k. json_parser (concat (replicate (Suc k) not_json_line)) = None"
      and s: "has_an_object_start s" "\<not> is_a_json_object_circuit_broken s"
        "is_a_json_object_circuit_breaker s < 1000"
        "unfinished_line s = concat (replicate m not_json_line)"
  shows "json_collector_step ndjson_storage json_parser s (not_json_line, so, eo, [], x)
           = ([], Inr (s\<lparr>unfinished_line := concat (replicate (Suc m) not_json_line),
                           is_a_json_object_circuit_breaker :=
                             is_a_json_object_circuit_breaker s + 1\<rparr>))"
proof -
  have p: "json_parser (concat (replicate m not_json_line) @ not_json_line) = None"
    using H [rule_format, of m] by (simp add: replicate_snoc_concat1)
  have "CHR ''{'' \<in> set (concat (replicate (Suc m) not_json_line))"
    by (simp add: not_json_line_def)
  then have ne: "strip_newlines (concat (replicate m not_json_line) @ not_json_line) \<noteq> []"
    using strip_newlines_keeps [of "CHR ''{''" "concat (replicate (Suc m) not_json_line)"]
    by (simp add: replicate_snoc_concat1)
  have c: "collector json_parser not_json_line [] s
             = ([], s\<lparr>unfinished_line := concat (replicate (Suc m) not_json_line),
                       is_a_json_object_circuit_breaker :=
                         is_a_json_object_circuit_breaker s + 1\<rparr>)"
    using p ne s by (simp add: collector_def Let_def replicate_snoc_concat1)
  have pre: "json_collector_forward s (not_json_line, so, eo, [], x) = Inr ([], s)"
    using s(1) by (simp add: json_collector_forward_def)
  show ?thesis
    using s by (simp add: json_collector_step_def pre c)
qed

lemma loop_buffers_bare:
  assumes H: "\<forall>k. json_parser (concat (replicate (Suc k) not_json_line)) = None"
  shows "has_an_object_start s \<Longrightarrow> \<not> is_a_json_object_circuit_broken s \<Longrightarrow>
         is_a_json_object_circuit_breaker s + int j \<le> 1000 \<Longrightarrow>
         unfinished_line s = concat (replicate m not_json_line) \<Longrightarrow>
         json_collector_loop ndjson_storage json_parser s (bare_records off not_json_line j)
           = ([], Inr (if j = 0 then s
                       else s\<lparr>unfinished_line := concat (replicate (m + j) not_json_line),
                              is_a_json_object_circuit_breaker :=
                                is_a_json_object_circuit_breaker s + int j\<rparr>))"
proof (induction j arbitrary: s m off)
  case 0
  then show ?case by simp
next
  case (Suc j)
  let ?s1 = "s\<lparr>unfinished_line := concat (replicate (Suc m) not_json_line),
               is_a_json_object_circuit_breaker := is_a_json_object_circuit_breaker s + 1\<rparr>"
  have st: "json_collector_step ndjson_storage json_parser s
              (not_json_line, off, off + int (length not_json_line), [], None)
            = ([], Inr ?s1)"
    using step_buffers_bare [OF H Suc.prems(1,2) _ Suc.prems(4)] Suc.prems(3) by simp
  have ih: "json_collector_loop ndjson_storage json_parser ?s1
              (bare_records (off + int (length not_json_line)) not_json_line j)
           = ([], Inr (if j = 0 then ?s1
                       else ?s1\<lparr>unfinished_line :=
                                concat (replicate (Suc m + j) not_json_line),
                              is_a_json_object_circuit_breaker :=
                                is_a_json_object_circuit_breaker ?s1 + int j\<rparr>))"
    using Suc.prems by (intro Suc.IH) simp_all
  show ?case
    using st ih by (cases "j = 0") (simp_all add: add.commute)
qed

lemma length_bare_records [simp]: "length (bare_records off line n) = n"
  by (induction n arbitrary: off) simp_all

lemma drain_json_object: "is_a_json_object s \<Longrightarrow> json_collector_drain s = ([], Inr s)"
  by (simp add: json_collector_drain_def)

lemma loop_cr_objects:
  assumes P: "json_parser empty_object = Some obj"
  shows "json_collector_loop ndjson_storage json_parser start_state
           (bare_records 0 empty_object 1000)
         = (bare_records 0 empty_object 1000,
            Inr \<lparr>starting_offset = 1998, ending_offset = 2000, unfinished_line = [],
                 has_an_object_start = True, is_a_json_object = True,
                 is_a_json_object_circuit_broken = False,
                 is_a_json_object_circuit_breaker = - 1000\<rparr>)"
proof -
  have s0: "\<not> is_a_json_object_circuit_broken start_state" "unfinished_line start_state = []"
    by (simp_all add: start_state_def new_json_collector_state_def)
  show ?thesis
    using loop_collects_empty_objects [of json_parser obj start_state 0 1000, OF P s0]
    by (simp add: start_state_def new_json_collector_state_def)
qed

lemma run_cr_stream:
  assumes P: "json_parser empty_object = Some obj"
      and H: "\<forall>k. json_parser (concat (replicate (Suc k) not_json_line)) = None"
  shows "json_collector_run ndjson_storage json_parser 0
           (multi_line ndjson_storage 0 (by_lines 0 ([cr_stream], None)))
         = (bare_records 0 empty_object 1000,
            Inr \<lparr>starting_offset = 1998, ending_offset = 2000,
                 unfinished_line = concat (replicate 1990 not_json_line),
                 has_an_object_start = True, is_a_json_object = True,
                 is_a_json_object_circuit_broken = False,
                 is_a_json_object_circuit_breaker = 990\<rparr>)"
proof -
  define sA where "sA = \<lparr>starting_offset = 1998, ending_offset = 2000, unfinished_line = [],
                 has_an_object_start = True, is_a_json_object = True,
                 is_a_json_object_circuit_broken = False,
                 is_a_json_object_circuit_breaker = - 1000\<rparr>"
  define sB where "sB = \<lparr>starting_offset = 1998, ending_offset = 2000,
                 unfinished_line = concat (replicate 1990 not_json_line),
                 has_an_object_start = True, is_a_json_object = True,
                 is_a_json_object_circuit_broken = False,
                 is_a_json_object_circuit_breaker = 990\<rparr>"
  have up: "multi_line ndjson_storage 0 (by_lines 0 ([cr_stream], None))
            = (bare_records 0 empty_object 1000 @ bare_records 2000 not_json_line 1990, None)"
    by (simp add: multi_line_def ndjson_storage_def by_lines_cr_stream)
  have A: "json_collector_loop ndjson_storage json_parser start_state
             (bare_records 0 empty_object 1000)
           = (bare_records 0 empty_object 1000, Inr sA)"
    using loop_cr_objects [of json_parser obj, OF P] by (simp add: sA_def)
  have sA: "has_an_object_start sA" "\<not> is_a_json_object_circuit_broken sA"
    "is_a_json_object_circuit_breaker sA + int 1990 \<le> 1000"
    "unfinished_line sA = concat (replicate 0 not_json_line)"
    by (simp_all add: sA_def)
  have B: "json_collector_loop ndjson_storage json_parser sA
             (bare_records 2000 not_json_line 1990) = ([], Inr sB)"
    using loop_buffers_bare [OF H sA, of 2000] by (simp add: sA_def sB_def)
  have loop: "json_collector_loop ndjson_storage json_parser start_state
                (bare_records 0 empty_object 1000 @ bare_records 2000 not_json_line 1990)
              = (bare_records 0 empty_object 1000, Inr sB)"
    unfolding json_collector_loop_append
    by (simp only: A B prod.case sum.case Let_def append_Nil2)
  have d: "json_collector_drain sB = ([], Inr sB)"
    by (rule drain_json_object) (simp add: sB_def)
  show ?thesis
    unfolding up
    using loop d
    by (simp add: json_collector_run_def ndjson_storage_def start_state_def [symmetric]
        sB_def [symmetric])
qed

text \<open>
  C5. The code breaks the bound of the claim on a stream of lines that end in \<open>\r\<close>, 1000
  lines \<open>{}\<close> and then 1990 lines \<open>{not json at all\<close>, read as one chunk in the mode
  \<open>ndjson\<close> with any parser that parses \<open>{}\<close> and rejects every run of the other line.
  \<open>by_lines\<close> yields 2990 records with an empty newline. Each of the first 1000 is collected
  as an object and takes 1 from the counter, which stands at -1000 after them. The 1990
  records that follow are buffered and move the counter to 990 only: the circuit is not
  broken, nothing is emitted for them and nothing falls back, also at the end of the stream,
  where the buffer still holds the 1990 lines.
\<close>

theorem json_collector_buffers_beyond_bound:
  "json_parser empty_object = Some json_object
   \<and> (\<forall>k. json_parser (concat (replicate (Suc k) not_json_line)) = None) \<longrightarrow>
     by_lines 0 ([cr_stream], None)
       = (bare_records 0 empty_object 1000 @ bare_records 2000 not_json_line 1990, None)
   \<and> length (fst (by_lines 0 ([cr_stream], None))) = 2990
   \<and> json_collector_loop ndjson_storage json_parser start_state
        (bare_records 0 empty_object 1000)
      = (bare_records 0 empty_object 1000,
         Inr \<lparr>starting_offset = 1998, ending_offset = 2000, unfinished_line = [],
              has_an_object_start = True, is_a_json_object = True,
              is_a_json_object_circuit_broken = False,
              is_a_json_object_circuit_breaker = - 1000\<rparr>)
   \<and> json_collector_run ndjson_storage json_parser 0
        (multi_line ndjson_storage 0 (by_lines 0 ([cr_stream], None)))
      = (bare_records 0 empty_object 1000,
         Inr \<lparr>starting_offset = 1998, ending_offset = 2000,
              unfinished_line = concat (replicate 1990 not_json_line),
              has_an_object_start = True, is_a_json_object = True,
              is_a_json_object_circuit_broken = False,
              is_a_json_object_circuit_breaker = 990\<rparr>)"
proof (intro impI, elim conjE)
  assume P: "json_parser empty_object = Some json_object"
    and H: "\<forall>k. json_parser (concat (replicate (Suc k) not_json_line)) = None"
  have l: "json_collector_loop ndjson_storage json_parser start_state
        (bare_records 0 empty_object 1000)
      = (bare_records 0 empty_object 1000,
         Inr \<lparr>starting_offset = 1998, ending_offset = 2000, unfinished_line = [],
              has_an_object_start = True, is_a_json_object = True,
              is_a_json_object_circuit_broken = False,
              is_a_json_object_circuit_breaker = - 1000\<rparr>)"
    using P by (rule loop_cr_objects)
  have r: "json_collector_run ndjson_storage json_parser 0
        (multi_line ndjson_storage 0 (by_lines 0 ([cr_stream], None)))
      = (bare_records 0 empty_object 1000,
         Inr \<lparr>starting_offset = 1998, ending_offset = 2000,
              unfinished_line = concat (replicate 1990 not_json_line),
              has_an_object_start = True, is_a_json_object = True,
              is_a_json_object_circuit_broken = False,
              is_a_json_object_circuit_breaker = 990\<rparr>)"
    using P H by (rule run_cr_stream)
  have n: "length (fst (by_lines 0 ([cr_stream], None))) = 2990"
    by (simp add: by_lines_cr_stream)
  from by_lines_cr_stream n l r
  show "by_lines 0 ([cr_stream], None)
       = (bare_records 0 empty_object 1000 @ bare_records 2000 not_json_line 1990, None)
   \<and> length (fst (by_lines 0 ([cr_stream], None))) = 2990
   \<and> json_collector_loop ndjson_storage json_parser start_state
        (bare_records 0 empty_object 1000)
      = (bare_records 0 empty_object 1000,
         Inr \<lparr>starting_offset = 1998, ending_offset = 2000, unfinished_line = [],
              has_an_object_start = True, is_a_json_object = True,
              is_a_json_object_circuit_broken = False,
              is_a_json_object_circuit_breaker = - 1000\<rparr>)
   \<and> json_collector_run ndjson_storage json_parser 0
        (multi_line ndjson_storage 0 (by_lines 0 ([cr_stream], None)))
      = (bare_records 0 empty_object 1000,
         Inr \<lparr>starting_offset = 1998, ending_offset = 2000,
              unfinished_line = concat (replicate 1990 not_json_line),
              has_an_object_start = True, is_a_json_object = True,
              is_a_json_object_circuit_broken = False,
              is_a_json_object_circuit_breaker = 990\<rparr>)"
    by (intro conjI)
qed

text \<open>The parser that parses \<open>{}\<close> and nothing else.\<close>

theorem json_collector_buffers_beyond_bound_witness:
  "empty_object_parser empty_object = Some (PDict [])
   \<and> empty_object_parser not_json_line = None
   \<and> length (fst (by_lines 0 ([cr_stream], None))) = 2990
   \<and> json_collector_run ndjson_storage empty_object_parser 0
        (multi_line ndjson_storage 0 (by_lines 0 ([cr_stream], None)))
      = (bare_records 0 empty_object 1000,
         Inr \<lparr>starting_offset = 1998, ending_offset = 2000,
              unfinished_line = concat (replicate 1990 not_json_line),
              has_an_object_start = True, is_a_json_object = True,
              is_a_json_object_circuit_broken = False,
              is_a_json_object_circuit_breaker = 990\<rparr>)"
proof -
  have p: "empty_object_parser empty_object = Some (PDict [])"
    by (simp add: empty_object_parser_def)
  have h: "\<forall>k. empty_object_parser (concat (replicate (Suc k) not_json_line)) = None"
    by (simp add: empty_object_parser_def empty_object_def not_json_line_def)
  have n: "empty_object_parser not_json_line = None"
    by (simp add: empty_object_parser_def empty_object_def not_json_line_def)
  note w = json_collector_buffers_beyond_bound [of empty_object_parser "PDict []"]
  have c: "length (fst (by_lines 0 ([cr_stream], None))) = 2990
     \<and> json_collector_run ndjson_storage empty_object_parser 0
          (multi_line ndjson_storage 0 (by_lines 0 ([cr_stream], None)))
        = (bare_records 0 empty_object 1000,
           Inr \<lparr>starting_offset = 1998, ending_offset = 2000,
                unfinished_line = concat (replicate 1990 not_json_line),
                has_an_object_start = True, is_a_json_object = True,
                is_a_json_object_circuit_broken = False,
                is_a_json_object_circuit_breaker = 990\<rparr>)"
    using w p h by blast
  from c p n show ?thesis by blast
qed

end
